theory Spec2Isabelle
  imports Complex_Main "HOL-Library.Multiset"
begin

section \<open>Python values, errors and list access\<close>

text \<open>
  The two source files are Python. Per-click values, click-through rates and prices are
  Python floats in the source; the model computes with exact real numbers, so rounding of
  the floating-point operations is outside the model. Everything that can raise in the
  source is a branch of the model: a result is \<open>Inl\<close> of the exception or \<open>Inr\<close> of
  the value.
\<close>

datatype py_error = AssertionError | IndexError | ZeroDivisionError | ValueError | NonFinite

text \<open>\<^verbatim>\<open>xs[k]\<close>: a negative index counts from the end, anything else out of range raises.\<close>

definition py_getitem :: "'a list \<Rightarrow> int \<Rightarrow> py_error + 'a" where
  "py_getitem xs k =
     (if 0 \<le> k \<and> k < int (length xs) then Inr (xs ! nat k)
      else if k < 0 \<and> - int (length xs) \<le> k then Inr (xs ! nat (int (length xs) + k))
      else Inl IndexError)"

text \<open>\<^verbatim>\<open>xs[k] = v\<close>, with the same index rules.\<close>

definition py_setitem :: "'a list \<Rightarrow> int \<Rightarrow> 'a \<Rightarrow> py_error + 'a list" where
  "py_setitem xs k v =
     (if 0 \<le> k \<and> k < int (length xs) then Inr (xs[nat k := v])
      else if k < 0 \<and> - int (length xs) \<le> k then Inr (xs[nat (int (length xs) + k) := v])
      else Inl IndexError)"

text \<open>\<^verbatim>\<open>x / y\<close> on Python floats raises on a zero divisor.\<close>

definition py_truediv :: "real \<Rightarrow> real \<Rightarrow> py_error + real" where
  "py_truediv x y = (if y = 0 then Inl ZeroDivisionError else Inr (x / y))"

text \<open>\<^verbatim>\<open>xs.remove(x)\<close> deletes the first occurrence and raises when there is none.\<close>

definition py_remove :: "'a list \<Rightarrow> 'a \<Rightarrow> py_error + 'a list" where
  "py_remove xs x = (if x \<in> set xs then Inr (remove1 x xs) else Inl ValueError)"

section \<open>The auction object (gsp-english.py)\<close>

record auction =
  n_slots :: int
  ctrs :: "real list"
  vals :: "real list"

text \<open>\<^verbatim>\<open>self.n_advertisers = len(values)\<close>\<close>

definition n_advertisers :: "auction \<Rightarrow> nat" where
  "n_advertisers a = length (vals a)"

text \<open>
  \<^verbatim>\<open>__init__\<close>: the fields are stored, then two assertions run: the length of
  \<^verbatim>\<open>ctrs\<close> is \<^verbatim>\<open>n_slots + 1\<close>, and \<^verbatim>\<open>ctrs[-1] == 0\<close>. Nothing else is checked.
\<close>

definition GeneralizedEnglishAuction :: "int \<Rightarrow> real list \<Rightarrow> real list \<Rightarrow> py_error + auction" where
  "GeneralizedEnglishAuction n cs vs =
     (if int (length cs) \<noteq> n + 1 then Inl AssertionError
      else case py_getitem cs (- 1) of
             Inl e \<Rightarrow> Inl e
           | Inr c \<Rightarrow> if c \<noteq> 0 then Inl AssertionError
                      else Inr \<lparr>n_slots = n, ctrs = cs, vals = vs\<rparr>)"

subsection \<open>The equilibrium drop-out price\<close>

text \<open>
  Lines 49 and 50 of the source pick the two click-through rates from the position index
  \<^verbatim>\<open>i - 1\<close>; out of range they fall back to \<^verbatim>\<open>ctrs[-2]\<close> and \<^verbatim>\<open>ctrs[-3]\<close>.
\<close>

definition alpha_i :: "auction \<Rightarrow> int \<Rightarrow> py_error + real" where
  "alpha_i a position_index =
     (if position_index < int (length (ctrs a)) then py_getitem (ctrs a) position_index
      else py_getitem (ctrs a) (- 2))"

definition alpha_i_minus_1 :: "auction \<Rightarrow> int \<Rightarrow> py_error + real" where
  "alpha_i_minus_1 a position_index =
     (if position_index < int (length (ctrs a)) - 1 then py_getitem (ctrs a) (position_index - 1)
      else py_getitem (ctrs a) (- 3))"

definition equilibrium_dropout_price :: "auction \<Rightarrow> int \<Rightarrow> real list \<Rightarrow> real \<Rightarrow> py_error + real" where
  "equilibrium_dropout_price a i history val =
     (let bi_minus_1 = (if history = [] then 0 else last history);
          position_index = i - 1
      in case alpha_i a position_index of
           Inl e \<Rightarrow> Inl e
         | Inr ai \<Rightarrow>
            (case alpha_i_minus_1 a position_index of
               Inl e \<Rightarrow> Inl e
             | Inr ai1 \<Rightarrow>
                (case py_truediv ai ai1 of
                   Inl e \<Rightarrow> Inl e
                 | Inr ratio \<Rightarrow> Inr (val - ratio * (val - bi_minus_1)))))"

subsection \<open>One elimination round: the lowest drop-out price\<close>

text \<open>
  Both loops of \<^verbatim>\<open>run_auction\<close> start a round the same way (lines 75 to 85 and 92 to
  103): a drop-out price is computed for every active advertiser at
  \<^verbatim>\<open>i = len(active_advertisers)\<close>, the pairs are sorted by price with Python's stable
  sort, and entry 0 is taken. \<open>sort_key\<close> is a stable insertion sort.
\<close>

fun collect_prices :: "auction \<Rightarrow> int \<Rightarrow> real list \<Rightarrow> nat list \<Rightarrow> py_error + (nat \<times> real) list" where
  "collect_prices a i history [] = Inr []"
| "collect_prices a i history (adv # rest) =
     (case py_getitem (vals a) (int adv) of
        Inl e \<Rightarrow> Inl e
      | Inr v \<Rightarrow>
         (case equilibrium_dropout_price a i history v of
            Inl e \<Rightarrow> Inl e
          | Inr price \<Rightarrow>
             (case collect_prices a i history rest of
                Inl e \<Rightarrow> Inl e
              | Inr dropout_prices \<Rightarrow> Inr ((adv, price) # dropout_prices))))"

definition lowest_dropout :: "auction \<Rightarrow> nat list \<Rightarrow> real list \<Rightarrow> py_error + (nat \<times> real)" where
  "lowest_dropout a active history =
     (case collect_prices a (int (length active)) history active of
        Inl e \<Rightarrow> Inl e
      | Inr dropout_prices \<Rightarrow> py_getitem (sort_key snd dropout_prices) 0)"

subsection \<open>The two loops and the final assignment\<close>

record auction_state =
  active_advertisers :: "nat list"
  history :: "real list"
  allocation :: "int list"
  prices :: "real list"
  next_slot_to_fill :: int

text \<open>The body of the first loop (lines 75 to 88).\<close>

definition excess_round :: "auction \<Rightarrow> auction_state \<Rightarrow> py_error + auction_state" where
  "excess_round a s =
     (case lowest_dropout a (active_advertisers s) (history s) of
        Inl e \<Rightarrow> Inl e
      | Inr (next_dropout, price) \<Rightarrow>
         (case py_setitem (prices s) (int next_dropout) 0 of
            Inl e \<Rightarrow> Inl e
          | Inr ps \<Rightarrow>
             (case py_remove (active_advertisers s) next_dropout of
                Inl e \<Rightarrow> Inl e
              | Inr act \<Rightarrow>
                 Inr (s\<lparr>prices := ps, history := history s @ [price],
                        active_advertisers := act\<rparr>))))"

text \<open>The body of the second loop (lines 92 to 115).\<close>

definition allocation_round :: "auction \<Rightarrow> auction_state \<Rightarrow> py_error + auction_state" where
  "allocation_round a s =
     (case lowest_dropout a (active_advertisers s) (history s) of
        Inl e \<Rightarrow> Inl e
      | Inr (next_dropout, price) \<Rightarrow>
         (case py_setitem (allocation s) (next_slot_to_fill s) (int next_dropout) of
            Inl e \<Rightarrow> Inl e
          | Inr al \<Rightarrow>
             (case py_setitem (prices s) (int next_dropout)
                     (if history s \<noteq> [] then last (history s) else 0) of
                Inl e \<Rightarrow> Inl e
              | Inr ps \<Rightarrow>
                 (case py_remove (active_advertisers s) next_dropout of
                    Inl e \<Rightarrow> Inl e
                  | Inr act \<Rightarrow>
                     Inr (s\<lparr>allocation := al, prices := ps,
                            next_slot_to_fill := next_slot_to_fill s - 1,
                            history := history s @ [price],
                            active_advertisers := act\<rparr>)))))"

text \<open>\<^verbatim>\<open>while len(active_advertisers) > self.n_slots\<close>\<close>

function excess_loop :: "auction \<Rightarrow> auction_state \<Rightarrow> py_error + auction_state" where
  "excess_loop a s =
     (if int (length (active_advertisers s)) > n_slots a then
        (case excess_round a s of
           Inl e \<Rightarrow> Inl e
         | Inr s' \<Rightarrow> excess_loop a s')
      else Inr s)"
  by pat_completeness auto
termination
proof (relation "measure (\<lambda>(a, s). length (active_advertisers s))")
  show "wf (measure (\<lambda>(a, s). length (active_advertisers s)))" by simp
next
  fix a s s'
  assume "excess_round a s = Inr s'"
  then obtain x where "x \<in> set (active_advertisers s)"
    and "active_advertisers s' = remove1 x (active_advertisers s)"
    by (auto simp: excess_round_def py_remove_def split: sum.splits prod.splits if_splits)
  then show "((a, s'), (a, s)) \<in> measure (\<lambda>(a, s). length (active_advertisers s))"
    using length_pos_if_in_set [of x "active_advertisers s"] by (simp add: length_remove1)
qed

text \<open>\<^verbatim>\<open>while len(active_advertisers) > 1 and next_slot_to_fill >= 0\<close>\<close>

function allocation_loop :: "auction \<Rightarrow> auction_state \<Rightarrow> py_error + auction_state" where
  "allocation_loop a s =
     (if length (active_advertisers s) > 1 \<and> next_slot_to_fill s \<ge> 0 then
        (case allocation_round a s of
           Inl e \<Rightarrow> Inl e
         | Inr s' \<Rightarrow> allocation_loop a s')
      else Inr s)"
  by pat_completeness auto
termination
proof (relation "measure (\<lambda>(a, s). length (active_advertisers s))")
  show "wf (measure (\<lambda>(a, s). length (active_advertisers s)))" by simp
next
  fix a s s'
  assume "allocation_round a s = Inr s'"
  then obtain x where "x \<in> set (active_advertisers s)"
    and "active_advertisers s' = remove1 x (active_advertisers s)"
    by (auto simp: allocation_round_def py_remove_def split: sum.splits prod.splits if_splits)
  then show "((a, s'), (a, s)) \<in> measure (\<lambda>(a, s). length (active_advertisers s))"
    using length_pos_if_in_set [of x "active_advertisers s"] by (simp add: length_remove1)
qed

text \<open>Lines 118 to 125: the last remaining advertiser takes slot 0.\<close>

definition final_assignment :: "auction \<Rightarrow> auction_state \<Rightarrow> py_error + auction_state" where
  "final_assignment a s =
     (if active_advertisers s \<noteq> [] \<and> next_slot_to_fill s \<ge> 0 then
        (case py_getitem (active_advertisers s) 0 of
           Inl e \<Rightarrow> Inl e
         | Inr adv \<Rightarrow>
            (case py_setitem (allocation s) 0 (int adv) of
               Inl e \<Rightarrow> Inl e
             | Inr al \<Rightarrow>
                (case py_setitem (prices s) (int adv)
                        (if history s \<noteq> [] then last (history s) else 0) of
                   Inl e \<Rightarrow> Inl e
                 | Inr ps \<Rightarrow> Inr (s\<lparr>allocation := al, prices := ps\<rparr>))))
      else Inr s)"

text \<open>Lines 65 to 71: the state before the first loop.\<close>

definition initial_state :: "auction \<Rightarrow> auction_state" where
  "initial_state a =
     \<lparr>active_advertisers = [0..<n_advertisers a],
      history = [],
      allocation = replicate (nat (n_slots a)) (- 1),
      prices = replicate (n_advertisers a) 0,
      next_slot_to_fill = n_slots a - 1\<rparr>"

text \<open>
  \<^verbatim>\<open>run_auction\<close> returns \<^verbatim>\<open>(allocation, prices, history)\<close>. The \<^verbatim>\<open>print\<close> of the last
  round's price list before the return is diagnostic output and is not modelled.
\<close>

definition run_auction :: "auction \<Rightarrow> py_error + (int list \<times> real list \<times> real list)" where
  "run_auction a =
     (case excess_loop a (initial_state a) of
        Inl e \<Rightarrow> Inl e
      | Inr s1 \<Rightarrow>
         (case allocation_loop a s1 of
            Inl e \<Rightarrow> Inl e
          | Inr s2 \<Rightarrow>
             (case final_assignment a s2 of
                Inl e \<Rightarrow> Inl e
              | Inr s3 \<Rightarrow> Inr (allocation s3, prices s3, history s3))))"

subsection \<open>NumPy operations used by the two VCG computations\<close>

text \<open>
  Modelled from the spec: \<^verbatim>\<open>np.argsort\<close> is NumPy library code, not code of this
  repository. The specification has the ranking by value descending "with ties broken by
  original index order, stable", so \<open>argsort\<close> is a stable sort of the indices by their
  keys. Both source files rank by \<^verbatim>\<open>np.argsort(-values)\<close>.
\<close>

definition argsort :: "real list \<Rightarrow> nat list" where
  "argsort xs = sort_key (\<lambda>k. xs ! k) [0..<length xs]"

text \<open>\<^verbatim>\<open>xs[:n]\<close>: a negative \<open>n\<close> counts from the end.\<close>

definition py_slice_to :: "'a list \<Rightarrow> int \<Rightarrow> 'a list" where
  "py_slice_to xs n = (if 0 \<le> n then take (nat n) xs else take (nat (int (length xs) + n)) xs)"

text \<open>\<^verbatim>\<open>np.delete(arr, i)\<close> for \<open>i \<ge> 0\<close>: out of bounds raises.\<close>

definition np_delete :: "'a list \<Rightarrow> nat \<Rightarrow> py_error + 'a list" where
  "np_delete xs i = (if i < length xs then Inr (take i xs @ drop (Suc i) xs) else Inl IndexError)"

text \<open>
  \<^verbatim>\<open>np.sum(xs * ys)\<close> on one-dimensional operands: the product is elementwise when
  the lengths agree, an operand of length 1 is broadcast, any other pair of lengths raises.
\<close>

definition np_sum_product :: "real list \<Rightarrow> real list \<Rightarrow> py_error + real" where
  "np_sum_product xs ys =
     (if length xs = length ys then Inr (sum_list (map2 (*) xs ys))
      else if length xs = 1 then Inr (sum_list (map (\<lambda>y. hd xs * y) ys))
      else if length ys = 1 then Inr (sum_list (map (\<lambda>x. x * hd ys) xs))
      else Inl ValueError)"

text \<open>
  Division of a NumPy float by zero gives \<^verbatim>\<open>inf\<close> or \<^verbatim>\<open>nan\<close> with a warning and
  does not raise; no real number stands for that result, so the model marks it
  \<open>NonFinite\<close>.
\<close>

definition np_truediv :: "real \<Rightarrow> real \<Rightarrow> py_error + real" where
  "np_truediv x y = (if y = 0 then Inl NonFinite else Inr (x / y))"

subsection \<open>The closed-form VCG prices (gsp-english.py)\<close>

text \<open>
  The inner loop of \<^verbatim>\<open>calculate_vcg_payments\<close> (lines 178 to 181), over the values of
  \<open>j\<close> still to come, with the payment accumulated so far.
\<close>

fun payment_loop :: "auction \<Rightarrow> nat list \<Rightarrow> nat list \<Rightarrow> real \<Rightarrow> py_error + real" where
  "payment_loop a sorted_indices [] payment = Inr payment"
| "payment_loop a sorted_indices (j # js) payment =
     (case py_getitem sorted_indices (int j) of
        Inl e \<Rightarrow> Inl e
      | Inr next_advertiser \<Rightarrow>
         (case py_getitem (ctrs a) (int j - 1) of
            Inl e \<Rightarrow> Inl e
          | Inr c_above \<Rightarrow>
             (case py_getitem (ctrs a) (int j) of
                Inl e \<Rightarrow> Inl e
              | Inr c_here \<Rightarrow>
                 (case py_getitem (vals a) (int next_advertiser) of
                    Inl e \<Rightarrow> Inl e
                  | Inr v \<Rightarrow>
                     payment_loop a sorted_indices js (payment + (c_above - c_here) * v)))))"

text \<open>The outer loop (lines 173 to 184), over the ranks \<open>i\<close> still to come.\<close>

fun price_loop :: "auction \<Rightarrow> nat list \<Rightarrow> nat list \<Rightarrow> real list \<Rightarrow> py_error + real list" where
  "price_loop a sorted_indices [] vcg_prices = Inr vcg_prices"
| "price_loop a sorted_indices (i # ranks) vcg_prices =
     (case py_getitem sorted_indices (int i) of
        Inl e \<Rightarrow> Inl e
      | Inr advertiser \<Rightarrow>
         (case payment_loop a sorted_indices
                 [Suc i ..< nat (min (n_slots a + 1) (int (length sorted_indices)))] 0 of
            Inl e \<Rightarrow> Inl e
          | Inr payment \<Rightarrow>
             (case py_getitem (ctrs a) (int i) of
                Inl e \<Rightarrow> Inl e
              | Inr c \<Rightarrow>
                 (case py_setitem vcg_prices (int advertiser)
                         (if c > 0 then payment / c else 0) of
                    Inl e \<Rightarrow> Inl e
                  | Inr vcg_prices' \<Rightarrow> price_loop a sorted_indices ranks vcg_prices'))))"

definition calculate_vcg_payments :: "auction \<Rightarrow> py_error + real list" where
  "calculate_vcg_payments a =
     (let sorted_indices = argsort (map uminus (vals a))
      in price_loop a sorted_indices
           [0 ..< nat (min (n_slots a) (int (length sorted_indices)))]
           (replicate (n_advertisers a) 0))"

subsection \<open>The counterfactual VCG payments (projecticd.py)\<close>

text \<open>
  The loop of lines 70 to 81 of \<^verbatim>\<open>simulate_auctions\<close>, over the slots \<open>i\<close> still to
  come; the payments are returned in slot order.
\<close>

fun vcg_payment_loop ::
  "int \<Rightarrow> real list \<Rightarrow> real list \<Rightarrow> real list \<Rightarrow> nat list \<Rightarrow> py_error + real list" where
  "vcg_payment_loop n slot_ctrs slot_vals sorted_vals [] = Inr []"
| "vcg_payment_loop n slot_ctrs slot_vals sorted_vals (i # slots) =
     (case np_delete sorted_vals i of
        Inl e \<Rightarrow> Inl e
      | Inr others \<Rightarrow>
         (let others_sorted = rev (sort others)
          in case np_sum_product slot_ctrs (py_slice_to sorted_vals n) of
               Inl e \<Rightarrow> Inl e
             | Inr value_with_i \<Rightarrow>
                (case np_sum_product slot_ctrs (py_slice_to others_sorted n) of
                   Inl e \<Rightarrow> Inl e
                 | Inr value_without_i \<Rightarrow>
                    (case py_getitem slot_ctrs (int i) of
                       Inl e \<Rightarrow> Inl e
                     | Inr c \<Rightarrow>
                        (case py_getitem slot_vals (int i) of
                           Inl e \<Rightarrow> Inl e
                         | Inr v \<Rightarrow>
                            (case np_truediv (value_without_i - (value_with_i - c * v)) c of
                               Inl e \<Rightarrow> Inl e
                             | Inr pay \<Rightarrow>
                                (case vcg_payment_loop n slot_ctrs slot_vals sorted_vals slots of
                                   Inl e \<Rightarrow> Inl e
                                 | Inr vcg_payments \<Rightarrow> Inr (pay # vcg_payments))))))))"

text \<open>
  The VCG payments of one trial of \<^verbatim>\<open>simulate_auctions\<close>, as a function of the sampled
  values (lines 44 to 54 and 68 to 82). Sampling the values is outside the model.
\<close>

definition simulate_vcg_payments :: "int \<Rightarrow> real list \<Rightarrow> real list \<Rightarrow> py_error + real list" where
  "simulate_vcg_payments n cs vs =
     (let idx_sorted = argsort (map uminus vs);
          sorted_vals = map (\<lambda>k. vs ! k) idx_sorted;
          slot_vals = py_slice_to sorted_vals n;
          slot_ctrs = py_slice_to cs n
      in vcg_payment_loop n slot_ctrs slot_vals sorted_vals [0 ..< nat n])"

section \<open>Notions used to state the properties\<close>

text \<open>
  A valid instance, in the words of the specification: at least one slot; \<open>n_slots + 1\<close>
  click-through rates, non-negative, weakly descending, the last one 0, no two adjacent
  zeros among the rates of the slots themselves (indices below \<open>n_slots\<close>); at least one
  advertiser, every value positive.
\<close>

definition valid_instance :: "auction \<Rightarrow> bool" where
  "valid_instance a \<longleftrightarrow>
     1 \<le> n_slots a \<and>
     int (length (ctrs a)) = n_slots a + 1 \<and>
     list_all (\<lambda>c. 0 \<le> c) (ctrs a) \<and>
     sorted_wrt (\<lambda>c d. d \<le> c) (ctrs a) \<and>
     last (ctrs a) = 0 \<and>
     list_all (\<lambda>k. \<not> (ctrs a ! k = 0 \<and> ctrs a ! Suc k = 0)) [0..<nat (n_slots a) - 1] \<and>
     vals a \<noteq> [] \<and>
     list_all (\<lambda>v. 0 < v) (vals a)"


text \<open>
  One pass through the second loop: its condition holds in \<open>s\<close> and its body takes \<open>s\<close>
  to \<open>s'\<close>. The states of the allocation phase of a run are those reachable by such passes
  from the state the first loop ends in.
\<close>

definition allocation_step :: "auction \<Rightarrow> auction_state \<Rightarrow> auction_state \<Rightarrow> bool" where
  "allocation_step a s s' \<longleftrightarrow>
     length (active_advertisers s) > 1 \<and> next_slot_to_fill s \<ge> 0 \<and> allocation_round a s = Inr s'"

text \<open>What every state of a run satisfies: the bookkeeping the index reads rely on.\<close>

definition state_ok :: "auction \<Rightarrow> auction_state \<Rightarrow> bool" where
  "state_ok a s \<longleftrightarrow>
     sorted_wrt (<) (active_advertisers s) \<and>
     list_all (\<lambda>x. x < n_advertisers a) (active_advertisers s) \<and>
     length (prices s) = n_advertisers a \<and>
     int (length (allocation s)) = n_slots a \<and>
     next_slot_to_fill s < n_slots a"

text \<open>
  The aggregate payment of the advertiser ranked \<open>i\<close> in the ranking \<open>r\<close>: the sum that
  the inner loop of \<^verbatim>\<open>calculate_vcg_payments\<close> accumulates, over the ranks \<open>j\<close> from
  \<open>i + 1\<close> up to \<open>n_slots\<close>, as far as there are advertisers.
\<close>

definition rank_payment :: "auction \<Rightarrow> nat list \<Rightarrow> nat \<Rightarrow> real" where
  "rank_payment a r i =
     (\<Sum>j = Suc i ..< nat (min (n_slots a + 1) (int (length r))).
        (ctrs a ! (j - 1) - ctrs a ! j) * vals a ! (r ! j))"

section \<open>The drop-out price formula\<close>

text \<open>
  Claim C1. With \<open>2 \<le> i \<le> n_slots\<close> on a constructed auction (the CTR list has
  \<open>n_slots + 1\<close> entries), the price is \<open>s - (\<alpha>\<^sub>i / \<alpha>\<^sub>i\<^sub>-\<^sub>1) * (s - b)\<close>, where \<open>b\<close> is the last
  history entry (0 for an empty history), \<open>\<alpha>\<^sub>i\<close> is the CTR at index \<open>i - 1\<close> and
  \<open>\<alpha>\<^sub>i\<^sub>-\<^sub>1\<close> the CTR at index \<open>i - 2\<close>. The formula divides by \<open>\<alpha>\<^sub>i\<^sub>-\<^sub>1\<close>; where that is 0
  the call raises ZeroDivisionError and returns no price.
\<close>

theorem equilibrium_dropout_price_formula:
  assumes "int (length (ctrs a)) = n_slots a + 1" and "2 \<le> i" and "i \<le> n_slots a"
  shows "equilibrium_dropout_price a i h s =
           (if ctrs a ! nat (i - 2) = 0 then Inl ZeroDivisionError
            else Inr (s - (ctrs a ! nat (i - 1) / ctrs a ! nat (i - 2))
                          * (s - (if h = [] then 0 else last h))))"
proof -
  from assms have ai: "alpha_i a (i - 1) = Inr (ctrs a ! nat (i - 1))"
    by (simp add: alpha_i_def py_getitem_def)
  from assms have "i - 1 < int (length (ctrs a)) - 1" by simp
  with assms have ai1: "alpha_i_minus_1 a (i - 1) = Inr (ctrs a ! nat (i - 2))"
    by (simp add: alpha_i_minus_1_def py_getitem_def)
  show ?thesis
    by (simp add: equilibrium_dropout_price_def ai ai1 py_truediv_def)
qed

theorem equilibrium_dropout_price_formula_witness:
  "equilibrium_dropout_price \<lparr>n_slots = 2, ctrs = [1, 1/2, 0], vals = [4, 6]\<rparr> 2 [3] 6
     = Inr (6 - ((1/2) / 1) * (6 - 3))"
  using equilibrium_dropout_price_formula
          [of "\<lparr>n_slots = 2, ctrs = [1, 1/2, 0], vals = [4, 6]\<rparr>" 2 "[3]" 6]
  by simp

section \<open>Selecting the lowest drop-out price\<close>

lemma hd_insort_key:
  "hd (insort_key f x ys) = (if ys = [] \<or> f x \<le> f (hd ys) then x else hd ys)"
  by (cases ys) auto

lemma sort_key_eq_Nil [simp]: "sort_key f xs = [] \<longleftrightarrow> xs = []"
  by (metis length_0_conv length_sort)

lemma hd_sort_key_first_min:
  "xs \<noteq> [] \<Longrightarrow>
     \<exists>ys zs. xs = ys @ hd (sort_key f xs) # zs
        \<and> (\<forall>y\<in>set ys. f (hd (sort_key f xs)) < f y)
        \<and> (\<forall>z\<in>set zs. f (hd (sort_key f xs)) \<le> f z)"
proof (induction xs)
  case Nil
  then show ?case by simp
next
  case (Cons x xs)
  show ?case
  proof (cases "xs = []")
    case True
    then have "x # xs = [] @ hd (sort_key f (x # xs)) # []" by simp
    then show ?thesis by (metis empty_iff list.set(1))
  next
    case False
    with Cons.IH obtain ys zs where split: "xs = ys @ hd (sort_key f xs) # zs"
      and before: "\<forall>y\<in>set ys. f (hd (sort_key f xs)) < f y"
      and after: "\<forall>z\<in>set zs. f (hd (sort_key f xs)) \<le> f z"
      by blast
    let ?m = "hd (sort_key f xs)"
    show ?thesis
    proof (cases "f x \<le> f ?m")
      case True
      then have h: "hd (sort_key f (x # xs)) = x"
        by (simp add: hd_insort_key)
      have "\<forall>z\<in>set xs. f x \<le> f z"
      proof
        fix z assume "z \<in> set xs"
        then have "z \<in> set ys \<or> z = ?m \<or> z \<in> set zs"
          using split by (metis Un_iff set_ConsD set_append)
        then have "f ?m \<le> f z" using before after by auto
        with True show "f x \<le> f z" by simp
      qed
      then have "x # xs = [] @ hd (sort_key f (x # xs)) # xs
          \<and> (\<forall>y\<in>set []. f (hd (sort_key f (x # xs))) < f y)
          \<and> (\<forall>z\<in>set xs. f (hd (sort_key f (x # xs))) \<le> f z)"
        using h by simp
      then show ?thesis by blast
    next
      case gt: False
      then have h: "hd (sort_key f (x # xs)) = ?m"
        using False by (simp add: hd_insort_key)
      have "x # xs = (x # ys) @ ?m # zs" using split by simp
      moreover have "\<forall>y\<in>set (x # ys). f ?m < f y" using before gt by auto
      ultimately show ?thesis using after h by metis
    qed
  qed
qed


lemma py_getitem_nat:
  "py_getitem xs (int k) = (if k < length xs then Inr (xs ! k) else Inl IndexError)"
  by (simp add: py_getitem_def)

lemma py_getitem_0:
  "py_getitem xs 0 = (if xs = [] then Inl IndexError else Inr (hd xs))"
  by (cases xs) (simp_all add: py_getitem_def)

lemma collect_prices_Inr:
  "collect_prices a i h act = Inr dps \<Longrightarrow>
     map fst dps = act \<and>
     (\<forall>x\<in>set dps. fst x < length (vals a)
          \<and> equilibrium_dropout_price a i h (vals a ! fst x) = Inr (snd x))"
proof (induction act arbitrary: dps)
  case Nil
  then show ?case by simp
next
  case (Cons adv rest)
  from Cons.prems obtain v price tl_prices where
    v: "py_getitem (vals a) (int adv) = Inr v"
    and price: "equilibrium_dropout_price a i h v = Inr price"
    and tl: "collect_prices a i h rest = Inr tl_prices"
    and dps: "dps = (adv, price) # tl_prices"
    by (auto split: sum.splits)
  from v have "adv < length (vals a)" and "v = vals a ! adv"
    by (auto simp: py_getitem_nat split: if_splits)
  with Cons.IH [OF tl] price dps show ?case by simp
qed

lemma lowest_dropout_first_min:
  assumes "lowest_dropout a act h = Inr (adv, p)"
  shows "\<exists>before after. act = before @ adv # after
           \<and> adv < length (vals a)
           \<and> equilibrium_dropout_price a (int (length act)) h (vals a ! adv) = Inr p
           \<and> (\<forall>x\<in>set before. \<exists>q.
                 equilibrium_dropout_price a (int (length act)) h (vals a ! x) = Inr q \<and> p < q)
           \<and> (\<forall>x\<in>set after. \<exists>q.
                 equilibrium_dropout_price a (int (length act)) h (vals a ! x) = Inr q \<and> p \<le> q)"
proof -
  let ?i = "int (length act)"
  from assms obtain dps where dps: "collect_prices a ?i h act = Inr dps"
    and get: "py_getitem (sort_key snd dps) 0 = Inr (adv, p)"
    by (auto simp: lowest_dropout_def split: sum.splits)
  from get have ne: "dps \<noteq> []" and hd: "hd (sort_key snd dps) = (adv, p)"
    by (auto simp: py_getitem_0 split: if_splits)
  from hd_sort_key_first_min [OF ne, of snd] hd obtain ys zs where
    split: "dps = ys @ (adv, p) # zs"
    and ys: "\<forall>y\<in>set ys. p < snd y" and zs: "\<forall>z\<in>set zs. p \<le> snd z"
    by auto
  from collect_prices_Inr [OF dps] have fst: "map fst dps = act"
    and each: "\<forall>x\<in>set dps. fst x < length (vals a)
          \<and> equilibrium_dropout_price a ?i h (vals a ! fst x) = Inr (snd x)"
    by auto
  have act: "act = map fst ys @ adv # map fst zs"
    using fst split by auto
  have here: "adv < length (vals a) \<and> equilibrium_dropout_price a ?i h (vals a ! adv) = Inr p"
    using each split by auto
  have b: "\<forall>x\<in>set (map fst ys). \<exists>q.
      equilibrium_dropout_price a ?i h (vals a ! x) = Inr q \<and> p < q"
    using each ys split by auto
  have c: "\<forall>x\<in>set (map fst zs). \<exists>q.
      equilibrium_dropout_price a ?i h (vals a ! x) = Inr q \<and> p \<le> q"
    using each zs split by auto
  from act here b c show ?thesis by blast
qed


lemma excess_round_Inr:
  assumes "excess_round a s = Inr s'"
  shows "\<exists>adv p. lowest_dropout a (active_advertisers s) (history s) = Inr (adv, p)
           \<and> adv \<in> set (active_advertisers s) \<and> adv < length (prices s)
           \<and> s' = s\<lparr>prices := (prices s)[adv := 0], history := history s @ [p],
                      active_advertisers := remove1 adv (active_advertisers s)\<rparr>"
  using assms
  by (auto simp: excess_round_def py_setitem_def py_remove_def
           split: sum.splits prod.splits if_splits)

lemma allocation_round_Inr:
  assumes "allocation_round a s = Inr s'" and "0 \<le> next_slot_to_fill s"
  shows "\<exists>adv p. lowest_dropout a (active_advertisers s) (history s) = Inr (adv, p)
           \<and> adv \<in> set (active_advertisers s) \<and> adv < length (prices s)
           \<and> next_slot_to_fill s < int (length (allocation s))
           \<and> s' = s\<lparr>allocation := (allocation s)[nat (next_slot_to_fill s) := int adv],
                      prices := (prices s)[adv := (if history s \<noteq> [] then last (history s) else 0)],
                      next_slot_to_fill := next_slot_to_fill s - 1,
                      history := history s @ [p],
                      active_advertisers := remove1 adv (active_advertisers s)\<rparr>"
  using assms
  by (auto simp: allocation_round_def py_setitem_def py_remove_def
           split: sum.splits prod.splits if_splits)




section \<open>What the two loops preserve\<close>

declare excess_loop.simps [simp del] allocation_loop.simps [simp del]

lemma ascending_remove1:
  "sorted_wrt (<) (xs :: nat list) \<Longrightarrow> sorted_wrt (<) (remove1 x xs)"
  by (simp add: strict_sorted_iff sorted_remove1)

lemma list_all_remove1:
  "list_all P xs \<Longrightarrow> list_all P (remove1 x xs)"
  by (induction xs) auto

lemma length_remove1_mem:
  "x \<in> set xs \<Longrightarrow> Suc (length (remove1 x xs)) = length xs"
  using length_pos_if_in_set [of x xs] by (simp add: length_remove1)

lemma state_ok_initial:
  "0 \<le> n_slots a \<Longrightarrow> state_ok a (initial_state a)"
  by (simp add: state_ok_def initial_state_def list_all_iff strict_sorted_iff)

lemma excess_round_state_ok:
  assumes "state_ok a s" and "excess_round a s = Inr s'"
  shows "state_ok a s'"
    and "Suc (length (active_advertisers s')) = length (active_advertisers s)"
    and "length (history s') = Suc (length (history s))"
    and "allocation s' = allocation s"
    and "next_slot_to_fill s' = next_slot_to_fill s"
    and "set (active_advertisers s') \<subseteq> set (active_advertisers s)"
proof -
  from excess_round_Inr [OF assms(2)] obtain adv p where
    mem: "adv \<in> set (active_advertisers s)"
    and s': "s' = s\<lparr>prices := (prices s)[adv := 0], history := history s @ [p],
                      active_advertisers := remove1 adv (active_advertisers s)\<rparr>"
    by blast
  from assms(1) s' show "state_ok a s'"
    by (simp add: state_ok_def ascending_remove1 list_all_remove1)
  from mem s' show "Suc (length (active_advertisers s')) = length (active_advertisers s)"
    by (simp add: length_remove1_mem)
  from s' show "length (history s') = Suc (length (history s))"
    and "allocation s' = allocation s"
    and "next_slot_to_fill s' = next_slot_to_fill s"
    by simp_all
  from s' show "set (active_advertisers s') \<subseteq> set (active_advertisers s)"
    using set_remove1_subset [of adv "active_advertisers s"] by simp
qed

lemma excess_loop_post:
  "state_ok a s \<Longrightarrow> excess_loop a s = Inr s' \<Longrightarrow>
     state_ok a s' \<and> allocation s' = allocation s
     \<and> next_slot_to_fill s' = next_slot_to_fill s
     \<and> int (length (active_advertisers s')) \<le> n_slots a
     \<and> (1 \<le> n_slots a \<and> active_advertisers s \<noteq> [] \<longrightarrow> active_advertisers s' \<noteq> [])
     \<and> length (history s') + length (active_advertisers s')
         = length (history s) + length (active_advertisers s)"
proof (induction a s rule: excess_loop.induct)
  case (1 a s)
  show ?case
  proof (cases "int (length (active_advertisers s)) > n_slots a")
    case False
    with "1.prems" show ?thesis by (simp add: excess_loop.simps [of a s])
  next
    case True
    with "1.prems"(2) obtain s1 where r: "excess_round a s = Inr s1"
      and l: "excess_loop a s1 = Inr s'"
      by (auto simp: excess_loop.simps [of a s] split: sum.splits)
    note step = excess_round_state_ok [OF "1.prems"(1) r]
    from "1.IH" [OF True r step(1) l] have
      ih: "state_ok a s'" "allocation s' = allocation s1"
        "next_slot_to_fill s' = next_slot_to_fill s1"
        "int (length (active_advertisers s')) \<le> n_slots a"
        "1 \<le> n_slots a \<and> active_advertisers s1 \<noteq> [] \<longrightarrow> active_advertisers s' \<noteq> []"
        "length (history s') + length (active_advertisers s')
           = length (history s1) + length (active_advertisers s1)"
      by simp_all
    have "1 \<le> n_slots a \<longrightarrow> active_advertisers s1 \<noteq> []"
      using True step(2) by auto
    with ih step show ?thesis by simp
  qed
qed


lemma allocation_round_state_ok:
  assumes "state_ok a s" and "allocation_round a s = Inr s'" and "0 \<le> next_slot_to_fill s"
  shows "state_ok a s'"
    and "Suc (length (active_advertisers s')) = length (active_advertisers s)"
    and "length (history s') = Suc (length (history s))"
    and "next_slot_to_fill s' = next_slot_to_fill s - 1"
    and "set (active_advertisers s') \<subseteq> set (active_advertisers s)"
    and "\<exists>adv\<in>set (active_advertisers s). adv \<notin> set (active_advertisers s')
           \<and> active_advertisers s' = remove1 adv (active_advertisers s)
           \<and> prices s' ! adv = (if history s = [] then 0 else last (history s))
           \<and> allocation s' ! nat (next_slot_to_fill s) = int adv
           \<and> (\<forall>x. x \<noteq> adv \<longrightarrow> prices s' ! x = prices s ! x)"
proof -
  from allocation_round_Inr [OF assms(2,3)] obtain adv p where
    mem: "adv \<in> set (active_advertisers s)" and pr: "adv < length (prices s)"
    and slot: "next_slot_to_fill s < int (length (allocation s))"
    and s': "s' = s\<lparr>allocation := (allocation s)[nat (next_slot_to_fill s) := int adv],
                      prices := (prices s)[adv := (if history s \<noteq> [] then last (history s) else 0)],
                      next_slot_to_fill := next_slot_to_fill s - 1,
                      history := history s @ [p],
                      active_advertisers := remove1 adv (active_advertisers s)\<rparr>"
    by blast
  from assms(1) s' show "state_ok a s'"
    by (simp add: state_ok_def ascending_remove1 list_all_remove1)
  from mem s' show "Suc (length (active_advertisers s')) = length (active_advertisers s)"
    by (simp add: length_remove1_mem)
  from s' show "length (history s') = Suc (length (history s))"
    and "next_slot_to_fill s' = next_slot_to_fill s - 1"
    by simp_all
  from s' show "set (active_advertisers s') \<subseteq> set (active_advertisers s)"
    using set_remove1_subset [of adv "active_advertisers s"] by simp
  from assms(1) have "distinct (active_advertisers s)"
    by (simp add: state_ok_def strict_sorted_iff)
  then have "adv \<notin> set (remove1 adv (active_advertisers s))" by simp
  with mem pr slot assms(3) s'
  show "\<exists>adv\<in>set (active_advertisers s). adv \<notin> set (active_advertisers s')
           \<and> active_advertisers s' = remove1 adv (active_advertisers s)
           \<and> prices s' ! adv = (if history s = [] then 0 else last (history s))
           \<and> allocation s' ! nat (next_slot_to_fill s) = int adv
           \<and> (\<forall>x. x \<noteq> adv \<longrightarrow> prices s' ! x = prices s ! x)"
    by (intro bexI [of _ adv]) auto
qed

lemma allocation_loop_post:
  "state_ok a s \<Longrightarrow> allocation_loop a s = Inr s' \<Longrightarrow>
     state_ok a s'
     \<and> set (active_advertisers s') \<subseteq> set (active_advertisers s)
     \<and> (\<forall>x. x \<notin> set (active_advertisers s) \<longrightarrow> prices s' ! x = prices s ! x)
     \<and> (active_advertisers s \<noteq> [] \<longrightarrow> active_advertisers s' \<noteq> [])
     \<and> (int (length (active_advertisers s)) \<le> next_slot_to_fill s + 1 \<longrightarrow>
          int (length (active_advertisers s')) \<le> next_slot_to_fill s' + 1)
     \<and> \<not> (length (active_advertisers s') > 1 \<and> next_slot_to_fill s' \<ge> 0)
     \<and> length (history s') + length (active_advertisers s')
         = length (history s) + length (active_advertisers s)"
proof (induction a s rule: allocation_loop.induct)
  case (1 a s)
  show ?case
  proof (cases "length (active_advertisers s) > 1 \<and> next_slot_to_fill s \<ge> 0")
    case False
    with "1.prems"(2) have "s' = s"
      by (simp add: allocation_loop.simps [of a s] del: One_nat_def)
    with "1.prems"(1) False show ?thesis by simp
  next
    case True
    with "1.prems"(2) obtain s1 where r: "allocation_round a s = Inr s1"
      and l: "allocation_loop a s1 = Inr s'"
      by (auto simp: allocation_loop.simps [of a s] split: sum.splits)
    from True have nn: "0 \<le> next_slot_to_fill s" by simp
    note step = allocation_round_state_ok [OF "1.prems"(1) r nn]
    from "1.IH" [OF True r step(1) l] have
      ih: "state_ok a s'"
        "set (active_advertisers s') \<subseteq> set (active_advertisers s1)"
        "\<forall>x. x \<notin> set (active_advertisers s1) \<longrightarrow> prices s' ! x = prices s1 ! x"
        "active_advertisers s1 \<noteq> [] \<longrightarrow> active_advertisers s' \<noteq> []"
        "int (length (active_advertisers s1)) \<le> next_slot_to_fill s1 + 1 \<longrightarrow>
          int (length (active_advertisers s')) \<le> next_slot_to_fill s' + 1"
        "\<not> (length (active_advertisers s') > 1 \<and> next_slot_to_fill s' \<ge> 0)"
        "length (history s') + length (active_advertisers s')
           = length (history s1) + length (active_advertisers s1)"
      by simp_all
    have ne: "active_advertisers s1 \<noteq> []" using True step(2) by auto
    have frame: "\<forall>x. x \<notin> set (active_advertisers s) \<longrightarrow> prices s' ! x = prices s ! x"
    proof (intro allI impI)
      fix x assume x: "x \<notin> set (active_advertisers s)"
      with step(5) have "x \<notin> set (active_advertisers s1)" by auto
      with ih(3) have "prices s' ! x = prices s1 ! x" by simp
      moreover have "prices s1 ! x = prices s ! x"
      proof -
        from step(6) obtain adv where "adv \<in> set (active_advertisers s)"
          and "\<forall>y. y \<noteq> adv \<longrightarrow> prices s1 ! y = prices s ! y" by blast
        with x show ?thesis by (cases "x = adv") simp_all
      qed
      ultimately show "prices s' ! x = prices s ! x" by simp
    qed
    have cnt: "int (length (active_advertisers s)) \<le> next_slot_to_fill s + 1 \<longrightarrow>
          int (length (active_advertisers s')) \<le> next_slot_to_fill s' + 1"
      using ih(5) step(2,4) by auto
    have len: "length (history s') + length (active_advertisers s')
         = length (history s) + length (active_advertisers s)"
      using ih(7) step(2,3) by simp
    from ih(1) ih(2) step(5) frame ih(4) ne cnt ih(6) len show ?thesis by blast
  qed
qed

lemma allocation_steps_inv:
  assumes "(allocation_step a)\<^sup>*\<^sup>* s1 s" and "state_ok a s1"
  shows "state_ok a s \<and> allocation_loop a s = allocation_loop a s1"
  using assms
proof (induction rule: rtranclp_induct)
  case base
  then show ?case by simp
next
  case (step s s')
  then have ok: "state_ok a s" and eq: "allocation_loop a s = allocation_loop a s1" by simp_all
  from step.hyps(2) have g: "length (active_advertisers s) > 1 \<and> next_slot_to_fill s \<ge> 0"
    and r: "allocation_round a s = Inr s'"
    by (simp_all add: allocation_step_def)
  from g have nn: "0 \<le> next_slot_to_fill s" by simp
  have "allocation_loop a s = allocation_loop a s'"
    using g r by (simp add: allocation_loop.simps [of a s])
  with eq allocation_round_state_ok(1) [OF ok r nn] show ?case by simp
qed

section \<open>Prices set in the allocation phase\<close>

text \<open>
  Claim C3. On a valid instance whose run returns \<open>(alloc, pr, hist)\<close>: every pass
  through the second loop that the run makes removes an advertiser from the active list,
  and that advertiser's price in the returned price list is the last entry the history had
  when the pass began (0 if it was empty). When the second loop ends, exactly one
  advertiser \<open>w\<close> is active and a slot is still unfilled; \<open>w\<close> is placed in slot 0 and
  its returned price is the last entry of the returned history (0 if that is empty).
\<close>

theorem allocation_phase_prices:
  assumes valid: "valid_instance a"
    and run: "run_auction a = Inr (alloc, pr, hist)"
  shows "\<exists>s1 s2 w.
           excess_loop a (initial_state a) = Inr s1
         \<and> allocation_loop a s1 = Inr s2
         \<and> (\<forall>s s'. (allocation_step a)\<^sup>*\<^sup>* s1 s \<and> allocation_step a s s' \<longrightarrow>
               (\<exists>adv\<in>set (active_advertisers s).
                   active_advertisers s' = remove1 adv (active_advertisers s)
                 \<and> pr ! adv = (if history s = [] then 0 else last (history s))))
         \<and> active_advertisers s2 = [w] \<and> 0 \<le> next_slot_to_fill s2
         \<and> alloc ! 0 = int w
         \<and> pr ! w = (if hist = [] then 0 else last hist)"
proof -
  from run obtain s1 s2 s3 where
    e: "excess_loop a (initial_state a) = Inr s1"
    and l: "allocation_loop a s1 = Inr s2"
    and f: "final_assignment a s2 = Inr s3"
    and out: "alloc = allocation s3" "pr = prices s3" "hist = history s3"
    by (auto simp: run_auction_def split: sum.splits)
  from valid have slots: "1 \<le> n_slots a" and adv: "vals a \<noteq> []"
    by (simp_all add: valid_instance_def)
  from slots have ok0: "state_ok a (initial_state a)" by (simp add: state_ok_initial)
  from adv have ne0: "active_advertisers (initial_state a) \<noteq> []"
    by (simp add: initial_state_def n_advertisers_def)
  have ns0: "next_slot_to_fill (initial_state a) = n_slots a - 1"
    by (simp add: initial_state_def)
  from excess_loop_post [OF ok0 e] slots ne0 ns0 have
    ok1: "state_ok a s1" and ne1: "active_advertisers s1 \<noteq> []"
    and cnt1: "int (length (active_advertisers s1)) \<le> next_slot_to_fill s1 + 1"
    by simp_all
  from allocation_loop_post [OF ok1 l] ne1 cnt1 have
    ok2: "state_ok a s2" and ne2: "active_advertisers s2 \<noteq> []"
    and cnt2: "int (length (active_advertisers s2)) \<le> next_slot_to_fill s2 + 1"
    and stop: "\<not> (length (active_advertisers s2) > 1 \<and> next_slot_to_fill s2 \<ge> 0)"
    by simp_all
  from ne2 have "1 \<le> length (active_advertisers s2)" by (cases "active_advertisers s2") simp_all
  with cnt2 stop have one: "length (active_advertisers s2) = 1" and slot2: "0 \<le> next_slot_to_fill s2"
    by linarith+
  from one obtain w where w: "active_advertisers s2 = [w]"
    by (cases "active_advertisers s2") simp_all
  from ok2 w have wn: "w < length (prices s2)"
    by (simp add: state_ok_def)
  from ok2 slot2 have "0 < int (length (allocation s2))"
    unfolding state_ok_def by linarith
  then have al: "0 < length (allocation s2)" by simp
  from f w slot2 wn al have s3: "s3 = s2\<lparr>allocation := (allocation s2)[0 := int w],
       prices := (prices s2)[w := (if history s2 \<noteq> [] then last (history s2) else 0)]\<rparr>"
    by (simp add: final_assignment_def py_getitem_def py_setitem_def)
  have top: "alloc ! 0 = int w" "pr ! w = (if hist = [] then 0 else last hist)"
    using s3 out wn al by simp_all
  have rounds: "\<exists>adv\<in>set (active_advertisers s).
                   active_advertisers s' = remove1 adv (active_advertisers s)
                 \<and> pr ! adv = (if history s = [] then 0 else last (history s))"
    if reach: "(allocation_step a)\<^sup>*\<^sup>* s1 s" and step: "allocation_step a s s'" for s s'
  proof -
    from allocation_steps_inv [OF reach ok1] have ok: "state_ok a s" by simp
    from step have nn: "0 \<le> next_slot_to_fill s" and r: "allocation_round a s = Inr s'"
      by (simp_all add: allocation_step_def)
    from reach step have "(allocation_step a)\<^sup>*\<^sup>* s1 s'" by simp
    from allocation_steps_inv [OF this ok1] l have
      ok': "state_ok a s'" and l': "allocation_loop a s' = Inr s2" by simp_all
    from allocation_round_state_ok(6) [OF ok r nn] obtain adv where
      mem: "adv \<in> set (active_advertisers s)" and gone: "adv \<notin> set (active_advertisers s')"
      and act: "active_advertisers s' = remove1 adv (active_advertisers s)"
      and price: "prices s' ! adv = (if history s = [] then 0 else last (history s))"
      by blast
    from allocation_loop_post [OF ok' l'] gone have
      keep: "prices s2 ! adv = prices s' ! adv"
      and sub: "set (active_advertisers s2) \<subseteq> set (active_advertisers s')"
      by simp_all
    from sub w gone have "adv \<noteq> w" by auto
    with s3 out have "pr ! adv = prices s2 ! adv" by simp
    with keep price mem act show ?thesis by auto
  qed
  from e l rounds w slot2 top show ?thesis by blast
qed

theorem allocation_phase_prices_witness:
  "valid_instance \<lparr>n_slots = 2, ctrs = [1, 1/2, 0], vals = [4, 6, 3, 8]\<rparr>
   \<and> run_auction \<lparr>n_slots = 2, ctrs = [1, 1/2, 0], vals = [4, 6, 3, 8]\<rparr>
       = Inr ([3, 1], [0, 4, 0, 5], [3/2, 4, 5])
   \<and> (\<exists>w. [3, 1 :: int] ! 0 = int w
          \<and> [0, 4, 0, 5 :: real] ! w = (if [3/2, 4, 5 :: real] = [] then 0 else last [3/2, 4, 5]))"
proof -
  let ?a = "\<lparr>n_slots = 2, ctrs = [1, 1/2, 0], vals = [4, 6, 3, 8]\<rparr>"
  have v: "valid_instance ?a"
    by code_simp
  have r: "run_auction ?a = Inr ([3, 1], [0, 4, 0, 5], [3/2, 4, 5])"
    by code_simp
  from allocation_phase_prices [OF v r]
  have "\<exists>w. [3, 1 :: int] ! 0 = int w
          \<and> [0, 4, 0, 5 :: real] ! w = (if [3/2, 4, 5 :: real] = [] then 0 else last [3/2, 4, 5])"
    by (elim exE conjE) (intro exI conjI; assumption)
  with v r show ?thesis by (intro conjI)
qed

section \<open>Runs that return\<close>

lemma valid_ctr_nonzero:
  assumes "valid_instance a" and "int k + 2 \<le> n_slots a"
  shows "ctrs a ! k \<noteq> 0"
proof
  assume z: "ctrs a ! k = 0"
  from assms have len: "Suc k < length (ctrs a)" and kk: "k < nat (n_slots a) - 1"
    by (auto simp: valid_instance_def)
  from assms(1) have "sorted_wrt (\<lambda>c d. d \<le> c) (ctrs a)" by (simp add: valid_instance_def)
  from sorted_wrt_nth_less [OF this, of k "Suc k"] len z have "ctrs a ! Suc k \<le> 0" by simp
  moreover from assms(1) len have "0 \<le> ctrs a ! Suc k"
    by (simp add: valid_instance_def list_all_length)
  ultimately have "ctrs a ! Suc k = 0" by simp
  moreover from assms(1) kk have "\<not> (ctrs a ! k = 0 \<and> ctrs a ! Suc k = 0)"
    by (simp add: valid_instance_def list_all_iff)
  ultimately show False using z by simp
qed

lemma alpha_i_outside:
  assumes "int (length (ctrs a)) = n_slots a + 1" and "1 \<le> n_slots a" and "n_slots a \<le> p"
  shows "alpha_i a p = Inr (if p = n_slots a then ctrs a ! nat (n_slots a)
                            else ctrs a ! nat (n_slots a - 1))"
  using assms by (auto simp: alpha_i_def py_getitem_def)

lemma alpha_i_minus_1_outside:
  assumes "int (length (ctrs a)) = n_slots a + 1" and "2 \<le> n_slots a" and "n_slots a \<le> p"
  shows "alpha_i_minus_1 a p = Inr (ctrs a ! nat (n_slots a - 2))"
  using assms by (auto simp: alpha_i_minus_1_def py_getitem_def)

lemma alpha_i_inside:
  assumes "int (length (ctrs a)) = n_slots a + 1" and "0 \<le> p" and "p < n_slots a"
  shows "alpha_i a p = Inr (ctrs a ! nat p)"
  using assms by (auto simp: alpha_i_def py_getitem_def)

lemma alpha_i_minus_1_inside:
  assumes "int (length (ctrs a)) = n_slots a + 1" and "1 \<le> p" and "p < n_slots a"
  shows "alpha_i_minus_1 a p = Inr (ctrs a ! nat (p - 1))"
  using assms by (auto simp: alpha_i_minus_1_def py_getitem_def)

lemma price_defined:
  assumes v: "valid_instance a" and two: "2 \<le> n_slots a" and i: "2 \<le> i"
  shows "\<exists>p. equilibrium_dropout_price a i h s = Inr p"
proof -
  from v have len: "int (length (ctrs a)) = n_slots a + 1" by (simp add: valid_instance_def)
  show ?thesis
  proof (cases "i - 1 < n_slots a")
    case True
    from valid_ctr_nonzero [OF v, of "nat (i - 2)"] True i
    have nz: "ctrs a ! nat (i - 2) \<noteq> 0" by simp
    from alpha_i_inside [OF len, of "i - 1"] alpha_i_minus_1_inside [OF len, of "i - 1"] True i
    have "alpha_i a (i - 1) = Inr (ctrs a ! nat (i - 1))"
      and "alpha_i_minus_1 a (i - 1) = Inr (ctrs a ! nat (i - 2))" by simp_all
    with nz show ?thesis
      by (simp add: equilibrium_dropout_price_def py_truediv_def)
  next
    case False
    from valid_ctr_nonzero [OF v, of "nat (n_slots a - 2)"] two
    have nz: "ctrs a ! nat (n_slots a - 2) \<noteq> 0" by simp
    from v have one: "1 \<le> n_slots a" by (simp add: valid_instance_def)
    from False have "n_slots a \<le> i - 1" by simp
    from alpha_i_outside [OF len one this] alpha_i_minus_1_outside [OF len two this] nz
    show ?thesis
      by (simp add: equilibrium_dropout_price_def py_truediv_def)
  qed
qed

lemma collect_prices_defined:
  assumes "list_all (\<lambda>x. x < length (vals a)) act"
    and "\<And>v. \<exists>p. equilibrium_dropout_price a i h v = Inr p"
  shows "\<exists>dps. collect_prices a i h act = Inr dps"
  using assms(1)
proof (induction act)
  case Nil
  then show ?case by simp
next
  case (Cons adv rest)
  then obtain dps where "collect_prices a i h rest = Inr dps" by auto
  moreover from Cons.prems have "py_getitem (vals a) (int adv) = Inr (vals a ! adv)"
    by (simp add: py_getitem_nat)
  moreover from assms(2) obtain p where
    "equilibrium_dropout_price a i h (vals a ! adv) = Inr p" by blast
  ultimately show ?case by simp
qed

lemma lowest_dropout_defined:
  assumes "act \<noteq> []" and "list_all (\<lambda>x. x < length (vals a)) act"
    and "\<And>v. \<exists>p. equilibrium_dropout_price a (int (length act)) h v = Inr p"
  shows "\<exists>adv p. lowest_dropout a act h = Inr (adv, p)"
proof -
  from collect_prices_defined [OF assms(2,3)] obtain dps where
    dps: "collect_prices a (int (length act)) h act = Inr dps" by blast
  from collect_prices_Inr [OF dps] assms(1) have "dps \<noteq> []" by auto
  with dps show ?thesis
    by (cases "hd (sort_key snd dps)") (simp add: lowest_dropout_def py_getitem_0)
qed

lemma excess_round_defined:
  assumes ok: "state_ok a s" and ne: "active_advertisers s \<noteq> []"
    and pd: "\<And>v. \<exists>p. equilibrium_dropout_price a (int (length (active_advertisers s)))
                         (history s) v = Inr p"
  shows "\<exists>s'. excess_round a s = Inr s'"
proof -
  from ok have ids: "list_all (\<lambda>x. x < length (vals a)) (active_advertisers s)"
    and pl: "length (prices s) = length (vals a)"
    by (simp_all add: state_ok_def n_advertisers_def)
  from lowest_dropout_defined [OF ne ids pd] obtain adv p where
    low: "lowest_dropout a (active_advertisers s) (history s) = Inr (adv, p)" by blast
  from lowest_dropout_first_min [OF low] have "adv \<in> set (active_advertisers s)"
    and "adv < length (vals a)" by auto
  with low pl show ?thesis
    by (simp add: excess_round_def py_setitem_def py_remove_def)
qed

lemma allocation_round_defined:
  assumes ok: "state_ok a s" and ne: "active_advertisers s \<noteq> []"
    and slot: "0 \<le> next_slot_to_fill s"
    and pd: "\<And>v. \<exists>p. equilibrium_dropout_price a (int (length (active_advertisers s)))
                         (history s) v = Inr p"
  shows "\<exists>s'. allocation_round a s = Inr s'"
proof -
  from ok have ids: "list_all (\<lambda>x. x < length (vals a)) (active_advertisers s)"
    and pl: "length (prices s) = length (vals a)"
    and al: "next_slot_to_fill s < int (length (allocation s))"
    by (simp_all add: state_ok_def n_advertisers_def)
  from lowest_dropout_defined [OF ne ids pd] obtain adv p where
    low: "lowest_dropout a (active_advertisers s) (history s) = Inr (adv, p)" by blast
  from lowest_dropout_first_min [OF low] have "adv \<in> set (active_advertisers s)"
    and "adv < length (vals a)" by auto
  with low pl al slot show ?thesis
    by (simp add: allocation_round_def py_setitem_def py_remove_def)
qed


lemma excess_loop_returns:
  "state_ok a s \<Longrightarrow> 1 \<le> n_slots a \<Longrightarrow>
   (\<forall>i h v. 2 \<le> i \<and> i \<le> int (length (active_advertisers s)) \<longrightarrow>
       (\<exists>p. equilibrium_dropout_price a i h v = Inr p)) \<Longrightarrow>
   \<exists>s'. excess_loop a s = Inr s'"
proof (induction a s rule: excess_loop.induct)
  case (1 a s)
  show ?case
  proof (cases "int (length (active_advertisers s)) > n_slots a")
    case False
    then show ?thesis by (simp add: excess_loop.simps [of a s])
  next
    case True
    with "1.prems"(2) have big: "2 \<le> int (length (active_advertisers s))" by simp
    then have ne: "active_advertisers s \<noteq> []" by auto
    from big "1.prems"(3) have
      "\<And>v. \<exists>p. equilibrium_dropout_price a (int (length (active_advertisers s)))
                         (history s) v = Inr p" by simp
    from excess_round_defined [OF "1.prems"(1) ne this] obtain s1 where
      r: "excess_round a s = Inr s1" by blast
    note step = excess_round_state_ok [OF "1.prems"(1) r]
    from step(2) "1.prems"(3) have
      "\<forall>i h v. 2 \<le> i \<and> i \<le> int (length (active_advertisers s1)) \<longrightarrow>
         (\<exists>p. equilibrium_dropout_price a i h v = Inr p)" by auto
    from "1.IH" [OF True r step(1) "1.prems"(2) this] True r show ?thesis
      by (simp add: excess_loop.simps [of a s])
  qed
qed

lemma allocation_loop_returns:
  "state_ok a s \<Longrightarrow>
   (\<forall>i h v. 2 \<le> i \<and> i \<le> int (length (active_advertisers s)) \<longrightarrow>
       (\<exists>p. equilibrium_dropout_price a i h v = Inr p)) \<Longrightarrow>
   \<exists>s'. allocation_loop a s = Inr s'"
proof (induction a s rule: allocation_loop.induct)
  case (1 a s)
  show ?case
  proof (cases "length (active_advertisers s) > 1 \<and> next_slot_to_fill s \<ge> 0")
    case False
    then have "allocation_loop a s = Inr s"
      by (subst allocation_loop.simps) (rule if_not_P)
    then show ?thesis by simp
  next
    case True
    then have big: "2 \<le> int (length (active_advertisers s))" by simp
    then have ne: "active_advertisers s \<noteq> []" by auto
    from True have nn: "0 \<le> next_slot_to_fill s" by simp
    from big "1.prems"(2) have
      "\<And>v. \<exists>p. equilibrium_dropout_price a (int (length (active_advertisers s)))
                         (history s) v = Inr p" by simp
    from allocation_round_defined [OF "1.prems"(1) ne nn this] obtain s1 where
      r: "allocation_round a s = Inr s1" by blast
    note step = allocation_round_state_ok [OF "1.prems"(1) r nn]
    from step(2) "1.prems"(2) have
      "\<forall>i h v. 2 \<le> i \<and> i \<le> int (length (active_advertisers s1)) \<longrightarrow>
         (\<exists>p. equilibrium_dropout_price a i h v = Inr p)" by auto
    from "1.IH" [OF True r step(1) this] True r show ?thesis
      by (simp add: allocation_loop.simps [of a s] del: One_nat_def)
  qed
qed

lemma final_assignment_returns:
  assumes "state_ok a s"
  shows "\<exists>s'. final_assignment a s = Inr s'"
proof (cases "active_advertisers s \<noteq> [] \<and> next_slot_to_fill s \<ge> 0")
  case False
  then show ?thesis by (auto simp: final_assignment_def)
next
  case True
  then obtain w rest where w: "active_advertisers s = w # rest"
    by (cases "active_advertisers s") auto
  with assms have wn: "w < length (prices s)" by (simp add: state_ok_def)
  from assms True have "0 < int (length (allocation s))"
    unfolding state_ok_def by linarith
  then have "0 < length (allocation s)" by simp
  with w wn True show ?thesis
    by (simp add: final_assignment_def py_getitem_def py_setitem_def)
qed

lemma run_auction_returns:
  assumes v: "valid_instance a" and c: "2 \<le> n_slots a \<or> n_advertisers a \<le> 1"
  shows "\<exists>alloc pr hist. run_auction a = Inr (alloc, pr, hist)"
proof -
  from v have one: "1 \<le> n_slots a" by (simp add: valid_instance_def)
  then have ok0: "state_ok a (initial_state a)" by (simp add: state_ok_initial)
  have len0: "length (active_advertisers (initial_state a)) = n_advertisers a"
    by (simp add: initial_state_def)
  have pd: "\<forall>i h s. 2 \<le> i \<and> i \<le> int (n_advertisers a) \<longrightarrow>
       (\<exists>p. equilibrium_dropout_price a i h s = Inr p)"
  proof (intro allI impI)
    fix i h s assume i: "2 \<le> i \<and> i \<le> int (n_advertisers a)"
    with c have "2 \<le> n_slots a" by auto
    from price_defined [OF v this] i show "\<exists>p. equilibrium_dropout_price a i h s = Inr p"
      by simp
  qed
  from excess_loop_returns [OF ok0 one] pd len0 obtain s1 where
    e: "excess_loop a (initial_state a) = Inr s1" by auto
  have hist0: "history (initial_state a) = []"
    by (simp add: initial_state_def)
  from excess_loop_post [OF ok0 e] len0 hist0 have ok1: "state_ok a s1"
    and "length (active_advertisers s1) \<le> n_advertisers a" by simp_all
  with pd have "\<forall>i h v. 2 \<le> i \<and> i \<le> int (length (active_advertisers s1)) \<longrightarrow>
       (\<exists>p. equilibrium_dropout_price a i h v = Inr p)" by auto
  from allocation_loop_returns [OF ok1 this] obtain s2 where
    l: "allocation_loop a s1 = Inr s2" by blast
  from allocation_loop_post [OF ok1 l] have ok2: "state_ok a s2" by simp
  from final_assignment_returns [OF ok2] obtain s3 where
    f: "final_assignment a s2 = Inr s3" by blast
  from e l f show ?thesis by (simp add: run_auction_def)
qed

section \<open>Runs that leave the specified behaviour\<close>

text \<open>
  Claim C2. Two runs on valid instances with more advertisers than slots. With one slot
  and two advertisers the first round reads \<^verbatim>\<open>ctrs[-3]\<close> of a two-element list and the
  run raises IndexError. With two slots of rates 1/2 and 1/2 and the values 10, 1, 2, 3,
  the first round has position index 3, outside the slot range: the formula takes
  \<^verbatim>\<open>ctrs[-2]\<close> and \<^verbatim>\<open>ctrs[-3]\<close>, both 1/2, where the last two entries are 1/2 and 0;
  every drop-out price is 0 and the advertiser of value 10 is removed first. The run ends
  with advertisers 3 and 2 in the slots at price 1 each, where the VCG prices are 2 for
  advertisers 0 and 3.
\<close>

theorem excess_advertisers_failing_runs:
  "valid_instance \<lparr>n_slots = 1, ctrs = [1, 0], vals = [1, 2]\<rparr>
   \<and> run_auction \<lparr>n_slots = 1, ctrs = [1, 0], vals = [1, 2]\<rparr> = Inl IndexError
   \<and> valid_instance \<lparr>n_slots = 2, ctrs = [1/2, 1/2, 0], vals = [10, 1, 2, 3]\<rparr>
   \<and> alpha_i \<lparr>n_slots = 2, ctrs = [1/2, 1/2, 0], vals = [10, 1, 2, 3]\<rparr> 3 = Inr (1/2)
   \<and> alpha_i_minus_1 \<lparr>n_slots = 2, ctrs = [1/2, 1/2, 0], vals = [10, 1, 2, 3]\<rparr> 3 = Inr (1/2)
   \<and> equilibrium_dropout_price \<lparr>n_slots = 2, ctrs = [1/2, 1/2, 0], vals = [10, 1, 2, 3]\<rparr>
         4 [] 10 = Inr 0
   \<and> run_auction \<lparr>n_slots = 2, ctrs = [1/2, 1/2, 0], vals = [10, 1, 2, 3]\<rparr>
       = Inr ([3, 2], [0, 0, 1, 1], [0, 1, 1])
   \<and> calculate_vcg_payments \<lparr>n_slots = 2, ctrs = [1/2, 1/2, 0], vals = [10, 1, 2, 3]\<rparr>
       = Inr [2, 0, 0, 2]"
  by code_simp

text \<open>
  Claim C5. With one slot and two advertisers the first round reads \<^verbatim>\<open>ctrs[-3]\<close> of a
  two-element list: the run raises IndexError and returns no history.
\<close>

theorem history_length_failing_run:
  "valid_instance \<lparr>n_slots = 1, ctrs = [1, 0], vals = [3, 5]\<rparr>
   \<and> run_auction \<lparr>n_slots = 1, ctrs = [1, 0], vals = [3, 5]\<rparr> = Inl IndexError"
  by code_simp

text \<open>
  Claim C7. With three slots and two advertisers the first advertiser to drop out is put
  in slot 2, the survivor in slot 0, and slot 1 stays empty: a slot whose index is not
  below the number of advertisers is assigned.
\<close>

theorem slot_beyond_advertisers_failing_run:
  "valid_instance \<lparr>n_slots = 3, ctrs = [1, 1/2, 1/4, 0], vals = [1, 2]\<rparr>
   \<and> run_auction \<lparr>n_slots = 3, ctrs = [1, 1/2, 1/4, 0], vals = [1, 2]\<rparr>
       = Inr ([1, - 1, 0], [0, 1/2], [1/2])"
  by code_simp

section \<open>What construction checks\<close>

text \<open>
  Claim C8, as amended. Construction raises an assertion error when the CTR list does not
  have \<open>n_slots + 1\<close> entries or when its last entry is not 0. A list of the right
  length that ends in 0 is accepted as it is: neither the order of the rates nor the
  number of values is looked at.
\<close>

theorem construction_checks:
  "(int (length cs) \<noteq> n + 1 \<longrightarrow> GeneralizedEnglishAuction n cs vs = Inl AssertionError)
   \<and> (cs \<noteq> [] \<and> last cs \<noteq> 0 \<longrightarrow> GeneralizedEnglishAuction n cs vs = Inl AssertionError)
   \<and> (int (length cs) = n + 1 \<and> cs \<noteq> [] \<and> last cs = 0 \<longrightarrow>
        GeneralizedEnglishAuction n cs vs = Inr \<lparr>n_slots = n, ctrs = cs, vals = vs\<rparr>)"
proof -
  have "py_getitem cs (- 1) = Inr (last cs)" if "cs \<noteq> []"
    using that by (cases cs) (simp_all add: py_getitem_def last_conv_nth nat_diff_distrib)
  then show ?thesis
    by (auto simp: GeneralizedEnglishAuction_def)
qed

theorem construction_checks_witness:
  "GeneralizedEnglishAuction 2 [1, 1/2] [1, 2] = Inl AssertionError
   \<and> GeneralizedEnglishAuction 2 [1, 1/2, 1/4] [1, 2] = Inl AssertionError
   \<and> GeneralizedEnglishAuction 2 [1, 1/2, 0] [1, 2]
       = Inr \<lparr>n_slots = 2, ctrs = [1, 1/2, 0], vals = [1, 2]\<rparr>"
  using construction_checks [of "[1, 1/2]" 2 "[1, 2]"]
        construction_checks [of "[1, 1/2, 1/4]" 2 "[1, 2]"]
        construction_checks [of "[1, 1/2, 0]" 2 "[1, 2]"]
  by simp

theorem construction_counterexample:
  "GeneralizedEnglishAuction 2 [1/2, 1, 0] [1, 2]
       = Inr \<lparr>n_slots = 2, ctrs = [1/2, 1, 0], vals = [1, 2]\<rparr>
   \<and> GeneralizedEnglishAuction 1 [1, 0] []
       = Inr \<lparr>n_slots = 1, ctrs = [1, 0], vals = []\<rparr>"
  by code_simp

section \<open>The ranking\<close>

lemma argsort_length: "length (argsort xs) = length xs"
  by (simp add: argsort_def)

lemma argsort_set: "set (argsort xs) = {..<length xs}"
  by (auto simp: argsort_def)

lemma argsort_distinct: "distinct (argsort xs)"
  by (simp add: argsort_def)

lemma argsort_nth_less: "i < length xs \<Longrightarrow> argsort xs ! i < length xs"
  using argsort_set [of xs] argsort_length [of xs] nth_mem [of i "argsort xs"] by auto

lemma argsort_ascending_keys:
  assumes "i < j" and "j < length xs"
  shows "xs ! (argsort xs ! i) \<le> xs ! (argsort xs ! j)"
proof -
  have "sorted (map (\<lambda>k. xs ! k) (argsort xs))"
    by (simp add: argsort_def)
  from sorted_nth_mono [OF this, of i j] assms show ?thesis
    by (simp add: argsort_length)
qed

lemma filter_keeps_order:
  assumes "i < j" and "j < length r" and "P (r ! i)" and "P (r ! j)"
  shows "\<exists>us vs ws. filter P r = us @ r ! i # vs @ r ! j # ws"
proof -
  from assms(1,2) have i: "i < length r" by simp
  have "r = take i r @ r ! i # drop (Suc i) r"
    using i by (simp add: id_take_nth_drop)
  moreover have "drop (Suc i) r = take (j - Suc i) (drop (Suc i) r)
      @ r ! j # drop (Suc j) r"
  proof -
    have "j - Suc i < length (drop (Suc i) r)" using assms(1,2) by simp
    from id_take_nth_drop [OF this] assms(1,2) show ?thesis
      by (simp add: Suc_leI)
  qed
  ultimately have "r = take i r @ r ! i # take (j - Suc i) (drop (Suc i) r)
      @ r ! j # drop (Suc j) r" by simp
  then have "filter P r = filter P (take i r @ r ! i # take (j - Suc i) (drop (Suc i) r)
      @ r ! j # drop (Suc j) r)" by simp
  with assms(3,4) show ?thesis by (simp del: append_take_drop_id) blast
qed

lemma argsort_stable:
  assumes "i < j" and "j < length xs" and "xs ! (argsort xs ! i) = xs ! (argsort xs ! j)"
  shows "argsort xs ! i < argsort xs ! j"
proof -
  let ?r = "argsort xs"
  let ?k = "xs ! (?r ! j)"
  let ?P = "\<lambda>y. xs ! y = ?k"
  have eq: "filter ?P ?r = filter ?P [0..<length xs]"
    unfolding argsort_def by (rule sort_key_stable)
  have "sorted_wrt (<) (filter ?P [0..<length xs])"
    by (rule sorted_wrt_filter) (simp add: strict_sorted_iff)
  with eq have asc: "sorted_wrt (<) (filter ?P ?r)" by simp
  from assms have "j < length ?r" by (simp add: argsort_length)
  from filter_keeps_order [OF assms(1) this, of ?P] assms(3)
  obtain us vs ws where "filter ?P ?r = us @ ?r ! i # vs @ ?r ! j # ws" by auto
  with asc show ?thesis by (simp add: sorted_wrt_append)
qed

section \<open>The closed-form VCG prices\<close>

lemma payment_loop_sum:
  assumes "\<forall>j\<in>set js. 1 \<le> j \<and> j < length r \<and> j < length (ctrs a) \<and> r ! j < length (vals a)"
  shows "payment_loop a r js p =
           Inr (p + (\<Sum>j\<leftarrow>js. (ctrs a ! (j - 1) - ctrs a ! j) * vals a ! (r ! j)))"
  using assms
proof (induction js arbitrary: p)
  case Nil
  then show ?case by simp
next
  case (Cons j js)
  then have j: "1 \<le> j" "j < length r" "j < length (ctrs a)" "r ! j < length (vals a)"
    by simp_all
  from j have "int j - 1 = int (j - 1)" by simp
  with j have above: "py_getitem (ctrs a) (int j - 1) = Inr (ctrs a ! (j - 1))"
    by (simp add: py_getitem_nat del: of_nat_diff)
  from Cons.prems have "\<forall>j\<in>set js. 1 \<le> j \<and> j < length r \<and> j < length (ctrs a)
      \<and> r ! j < length (vals a)" by simp
  from Cons.IH [OF this] j above show ?case
    by (simp add: py_getitem_nat algebra_simps)
qed

lemma payment_loop_rank:
  assumes len: "int (length (ctrs a)) = n_slots a + 1"
    and r: "\<forall>j < length r. r ! j < length (vals a)"
  shows "payment_loop a r [Suc i ..< nat (min (n_slots a + 1) (int (length r)))] 0
           = Inr (rank_payment a r i)"
proof -
  let ?m = "nat (min (n_slots a + 1) (int (length r)))"
  have "\<forall>j\<in>set [Suc i ..< ?m]. 1 \<le> j \<and> j < length r \<and> j < length (ctrs a)
      \<and> r ! j < length (vals a)"
    using len r by auto
  from payment_loop_sum [OF this, of 0] show ?thesis
    by (simp add: rank_payment_def interv_sum_list_conv_sum_set_nat)
qed

lemma price_loop_fold:
  assumes len: "int (length (ctrs a)) = n_slots a + 1"
    and r: "\<forall>j < length r. r ! j < length (vals a)"
    and ranks: "\<forall>i\<in>set ranks. i < length r \<and> int i < n_slots a"
    and vp: "length vp = length (vals a)"
  shows "price_loop a r ranks vp =
           Inr (fold (\<lambda>i vp. vp[r ! i := (if ctrs a ! i > 0 then rank_payment a r i / ctrs a ! i
                                          else 0)]) ranks vp)"
  using ranks vp
proof (induction ranks arbitrary: vp)
  case Nil
  then show ?case by simp
next
  case (Cons i ranks)
  then have i: "i < length r" "int i < n_slots a" by simp_all
  with len have c: "py_getitem (ctrs a) (int i) = Inr (ctrs a ! i)"
    by (simp add: py_getitem_nat)
  from i r Cons.prems(2) have "r ! i < length vp" by simp
  then have set: "py_setitem vp (int (r ! i)) x = Inr (vp[r ! i := x])" for x
    by (simp add: py_setitem_def)
  from Cons.prems have "\<forall>i\<in>set ranks. i < length r \<and> int i < n_slots a" by simp
  from Cons.IH [OF this] Cons.prems(2) i c set payment_loop_rank [OF len r, of i]
  show ?case by (simp add: py_getitem_nat)
qed

lemma fold_update_other:
  "x \<notin> g ` set ranks \<Longrightarrow> fold (\<lambda>i vp. vp[g i := f i]) ranks vp ! x = vp ! x"
  by (induction ranks arbitrary: vp) auto

lemma fold_update_length:
  "length (fold (\<lambda>i vp. vp[g i := f i]) ranks vp) = length vp"
  by (induction ranks arbitrary: vp) auto

lemma fold_update_hit:
  assumes "distinct ranks" and "inj_on g (set ranks)" and "k \<in> set ranks"
    and "g k < length vp"
  shows "fold (\<lambda>i vp. vp[g i := f i]) ranks vp ! g k = f k"
  using assms
proof (induction ranks arbitrary: vp)
  case Nil
  then show ?case by simp
next
  case (Cons i ranks)
  show ?case
  proof (cases "k = i")
    case True
    with Cons.prems have "g k \<notin> g ` set ranks"
      by (auto simp: inj_on_def)
    from fold_update_other [OF this, of f "vp[g i := f i]"]
    have "fold (\<lambda>i vp. vp[g i := f i]) ranks (vp[g i := f i]) ! g k = vp[g i := f i] ! g k" .
    with True Cons.prems(4) show ?thesis by simp
  next
    case False
    with Cons.prems have "k \<in> set ranks" "distinct ranks" "inj_on g (set ranks)" by simp_all
    from Cons.IH [OF this(2,3,1), of "vp[g i := f i]"] Cons.prems(4) show ?thesis by simp
  qed
qed


lemma calculate_vcg_payments_fold:
  assumes len: "int (length (ctrs a)) = n_slots a + 1"
  shows "calculate_vcg_payments a =
           Inr (fold (\<lambda>i vp. vp[argsort (map uminus (vals a)) ! i :=
                         (if ctrs a ! i > 0
                          then rank_payment a (argsort (map uminus (vals a))) i / ctrs a ! i
                          else 0)])
                  [0 ..< nat (min (n_slots a) (int (length (vals a))))]
                  (replicate (length (vals a)) 0))"
proof -
  let ?r = "argsort (map uminus (vals a))"
  have lr: "length ?r = length (vals a)" by (simp add: argsort_length)
  have r: "\<forall>j < length ?r. ?r ! j < length (vals a)"
    using argsort_nth_less [of _ "map uminus (vals a)"] lr by simp
  have ranks: "\<forall>i\<in>set [0 ..< nat (min (n_slots a) (int (length (vals a))))].
      i < length ?r \<and> int i < n_slots a"
    using lr by auto
  from price_loop_fold [OF len r ranks, of "replicate (length (vals a)) 0"] lr
  show ?thesis by (simp add: calculate_vcg_payments_def n_advertisers_def Let_def)
qed

lemma vcg_price_at_rank:
  assumes len: "int (length (ctrs a)) = n_slots a + 1" and i: "i < length (vals a)"
    and vcg: "calculate_vcg_payments a = Inr vcg"
  shows "vcg ! (argsort (map uminus (vals a)) ! i) =
           (if int i < n_slots a
            then (if ctrs a ! i > 0
                  then rank_payment a (argsort (map uminus (vals a))) i / ctrs a ! i else 0)
            else 0)"
    and "length vcg = length (vals a)"
proof -
  let ?r = "argsort (map uminus (vals a))"
  let ?f = "\<lambda>i. if ctrs a ! i > 0 then rank_payment a ?r i / ctrs a ! i else (0::real)"
  let ?ranks = "[0 ..< nat (min (n_slots a) (int (length (vals a))))]"
  have lr: "length ?r = length (vals a)" by (simp add: argsort_length)
  have dr: "distinct ?r" by (rule argsort_distinct)
  from calculate_vcg_payments_fold [OF len] vcg
  have v: "vcg = fold (\<lambda>i vp. vp[?r ! i := ?f i]) ?ranks (replicate (length (vals a)) 0)"
    by simp
  then show "length vcg = length (vals a)" by (simp add: fold_update_length)
  have ri: "?r ! i < length (vals a)"
    using argsort_nth_less [of i "map uminus (vals a)"] i by simp
  show "vcg ! (?r ! i) = (if int i < n_slots a then ?f i else 0)"
  proof (cases "int i < n_slots a")
    case True
    with i have mem: "i \<in> set ?ranks" by auto
    have "inj_on ((!) ?r) (set ?ranks)"
      by (rule inj_on_nth [OF dr]) (auto simp: lr)
    from fold_update_hit [OF _ this mem, of "replicate (length (vals a)) 0" ?f] ri v True
    show ?thesis by simp
  next
    case False
    have "?r ! i \<notin> (!) ?r ` set ?ranks"
    proof
      assume "?r ! i \<in> (!) ?r ` set ?ranks"
      then obtain k where k: "k \<in> set ?ranks" and eq: "?r ! i = ?r ! k" by auto
      from k have "k < length ?r" by (simp add: lr)
      with eq dr i lr have "i = k" by (simp add: nth_eq_iff_index_eq)
      with k False show False by simp
    qed
    from fold_update_other [OF this, of ?f "replicate (length (vals a)) 0"] v ri False
    show ?thesis by simp
  qed
qed

text \<open>
  Claim C4. On a valid instance \<^verbatim>\<open>calculate_vcg_payments\<close> returns one price per
  advertiser. The ranking \<open>r\<close> lists every advertiser once, by value descending, equal
  values in index order. The advertiser at rank \<open>i\<close> below \<open>n_slots\<close> gets the sum over
  the ranks \<open>j\<close> from \<open>i + 1\<close> to \<open>n_slots\<close> (as far as there are advertisers) of
  \<open>(ctr[j-1] - ctr[j]) * value[rank j]\<close>, divided by \<open>ctr[i]\<close>, and 0 when \<open>ctr[i]\<close> is
  0; every advertiser ranked at \<open>n_slots\<close> or beyond gets 0.
\<close>

theorem calculate_vcg_payments_closed_form:
  assumes "valid_instance a"
  shows "\<exists>vcg. calculate_vcg_payments a = Inr vcg \<and> length vcg = n_advertisers a \<and>
     (let r = argsort (map uminus (vals a)); n = n_advertisers a; m = nat (n_slots a) in
        length r = n \<and> set r = {..<n} \<and> distinct r
      \<and> (\<forall>i j. i < j \<and> j < n \<longrightarrow>
             vals a ! (r ! j) \<le> vals a ! (r ! i)
           \<and> (vals a ! (r ! j) = vals a ! (r ! i) \<longrightarrow> r ! i < r ! j))
      \<and> (\<forall>i < n. vcg ! (r ! i) =
             (if i < m
              then (if ctrs a ! i = 0 then 0
                    else (\<Sum>j = Suc i ..< min (Suc m) n.
                            (ctrs a ! (j - 1) - ctrs a ! j) * vals a ! (r ! j)) / ctrs a ! i)
              else 0)))"
proof -
  let ?xs = "map uminus (vals a)"
  let ?r = "argsort ?xs"
  let ?n = "n_advertisers a"
  let ?m = "nat (n_slots a)"
  from assms have len: "int (length (ctrs a)) = n_slots a + 1" and one: "1 \<le> n_slots a"
    and nonneg: "list_all (\<lambda>c. 0 \<le> c) (ctrs a)"
    by (simp_all add: valid_instance_def)
  from calculate_vcg_payments_fold [OF len] obtain vcg where
    vcg: "calculate_vcg_payments a = Inr vcg" by blast
  note at = vcg_price_at_rank [OF len _ vcg]
  have lr: "length ?r = ?n" by (simp add: argsort_length n_advertisers_def)
  have sr: "set ?r = {..<?n}" by (simp add: argsort_set n_advertisers_def)
  have dr: "distinct ?r" by (rule argsort_distinct)
  have order: "vals a ! (?r ! j) \<le> vals a ! (?r ! i)
      \<and> (vals a ! (?r ! j) = vals a ! (?r ! i) \<longrightarrow> ?r ! i < ?r ! j)"
    if ij: "i < j" and j: "j < ?n" for i j
  proof -
    from ij j have ri: "?r ! i < length (vals a)" and rj: "?r ! j < length (vals a)"
      using argsort_nth_less [of _ ?xs] by (simp_all add: n_advertisers_def)
    from j have jl: "j < length ?xs" by (simp add: n_advertisers_def)
    from argsort_ascending_keys [OF ij jl] ri rj
    have "vals a ! (?r ! j) \<le> vals a ! (?r ! i)" by simp
    moreover have "?r ! i < ?r ! j" if "vals a ! (?r ! j) = vals a ! (?r ! i)"
      using argsort_stable [OF ij jl] ri rj that by simp
    ultimately show ?thesis by simp
  qed
  have price: "vcg ! (?r ! i) =
             (if i < ?m
              then (if ctrs a ! i = 0 then 0
                    else (\<Sum>j = Suc i ..< min (Suc ?m) ?n.
                            (ctrs a ! (j - 1) - ctrs a ! j) * vals a ! (?r ! j)) / ctrs a ! i)
              else 0)"
    if i: "i < ?n" for i
  proof (cases "i < ?m")
    case False
    then have "\<not> int i < n_slots a" by simp
    with at(1) [of i] i False show ?thesis by (simp add: n_advertisers_def)
  next
    case True
    then have il: "int i < n_slots a" by simp
    with len have "i < length (ctrs a)" by simp
    with nonneg have "0 \<le> ctrs a ! i" by (simp add: list_all_length)
    then have pos: "ctrs a ! i > 0 \<longleftrightarrow> ctrs a ! i \<noteq> 0" by auto
    from one lr have "nat (min (n_slots a + 1) (int (length ?r))) = min (Suc ?m) ?n"
      by linarith
    then have "rank_payment a ?r i =
        (\<Sum>j = Suc i ..< min (Suc ?m) ?n.
            (ctrs a ! (j - 1) - ctrs a ! j) * vals a ! (?r ! j))"
      by (simp add: rank_payment_def)
    with at(1) [of i] i il True pos show ?thesis by (simp add: n_advertisers_def)
  qed
  from calculate_vcg_payments_fold [OF len] vcg have "length vcg = ?n"
    by (auto simp: fold_update_length n_advertisers_def)
  with vcg lr sr dr order price show ?thesis
    unfolding Let_def by blast
qed

theorem calculate_vcg_payments_closed_form_witness:
  "valid_instance \<lparr>n_slots = 2, ctrs = [1, 6/10, 0], vals = [6, 2, 10, 6]\<rparr>
   \<and> calculate_vcg_payments \<lparr>n_slots = 2, ctrs = [1, 6/10, 0], vals = [6, 2, 10, 6]\<rparr>
       = Inr [6, 0, 6, 0]
   \<and> argsort (map uminus [6, 2, 10, 6]) = [2, 0, 3, 1]
   \<and> (\<exists>vcg. calculate_vcg_payments \<lparr>n_slots = 2, ctrs = [1, 6/10, 0], vals = [6, 2, 10, 6]\<rparr>
               = Inr vcg
            \<and> length vcg = n_advertisers \<lparr>n_slots = 2, ctrs = [1, 6/10, 0], vals = [6, 2, 10, 6]\<rparr>)"
proof -
  let ?a = "\<lparr>n_slots = 2, ctrs = [1, 6/10, 0], vals = [6, 2, 10, 6]\<rparr>"
  have v: "valid_instance ?a"
    by code_simp
  have c: "calculate_vcg_payments ?a = Inr [6, 0, 6, 0]"
    by code_simp
  have r: "argsort (map uminus [6, 2, 10, 6]) = [2, 0, 3, 1]"
    by code_simp
  from calculate_vcg_payments_closed_form [OF v]
  have "\<exists>vcg. calculate_vcg_payments ?a = Inr vcg \<and> length vcg = n_advertisers ?a"
    by (elim exE conjE) (intro exI conjI; assumption)
  with v c r show ?thesis by (intro conjI)
qed

text \<open>
  Claim C9, as amended. For two slots with rates 1.0 and 0.6 and the values 10, 6 and 2,
  the advertiser of rank 0 is advertiser 0 and its per-click price is
  \<open>((1.0 - 0.6) * 6 + (0.6 - 0) * 2) / 1.0 = 3.6\<close>: the sum runs over both lower ranks.
\<close>

theorem vcg_known_scenario:
  "calculate_vcg_payments \<lparr>n_slots = 2, ctrs = [1, 6/10, 0], vals = [10, 6, 2]\<rparr>
     = Inr [((1 - 6/10) * 6 + (6/10 - 0) * 2) / 1, ((6/10 - 0) * 2) / (6/10), 0]
   \<and> argsort (map uminus [10, 6, 2]) ! 0 = 0
   \<and> ((1 - 6/10) * 6 + (6/10 - 0) * 2) / 1 = (36/10 :: real)"
  by code_simp

theorem vcg_known_scenario_counterexample:
  "calculate_vcg_payments \<lparr>n_slots = 2, ctrs = [1, 6/10, 0], vals = [10, 6, 2]\<rparr>
     = Inr [36/10, 2, 0]
   \<and> [36/10, 2, 0 :: real] ! (argsort (map uminus [10, 6, 2]) ! 0) \<noteq> 24/10"
  by code_simp

section \<open>The closed form against the counterfactual computation\<close>

lemma descending_rev_sort:
  assumes "sorted (map uminus (ys :: real list))"
  shows "rev (sort ys) = ys"
proof -
  from assms have "sorted_wrt (\<lambda>x y. y \<le> x) ys"
    by (simp add: sorted_wrt_map)
  then have "sorted (rev ys)" by (simp add: sorted_wrt_rev)
  moreover have "mset (rev ys) = mset ys" by simp
  ultimately have "sort ys = rev ys" by (simp add: properties_for_sort)
  then show ?thesis by simp
qed

lemma descending_delete:
  assumes "sorted (map uminus (ys :: real list))"
  shows "sorted (map uminus (take i ys @ drop (Suc i) ys))"
proof -
  let ?P = "\<lambda>x y :: real. y \<le> x"
  from assms have s: "sorted_wrt ?P ys" by (simp add: sorted_wrt_map)
  then have "sorted_wrt ?P (take i ys @ drop i ys)" by simp
  then have cross: "\<forall>x\<in>set (take i ys). \<forall>y\<in>set (drop i ys). ?P x y"
    by (simp only: sorted_wrt_append) blast
  have "set (drop (Suc i) ys) \<subseteq> set (drop i ys)"
    by (rule set_drop_subset_set_drop) simp
  with cross have "\<forall>x\<in>set (take i ys). \<forall>y\<in>set (drop (Suc i) ys). ?P x y" by blast
  with s have "sorted_wrt ?P (take i ys @ drop (Suc i) ys)"
    by (simp add: sorted_wrt_append sorted_wrt_take sorted_wrt_drop)
  then show ?thesis by (simp only: sorted_wrt_map neg_le_iff_le)
qed

lemma sorted_vals_descending:
  "sorted (map uminus (map (\<lambda>k. vs ! k) (argsort (map uminus vs))))"
proof -
  let ?xs = "map uminus vs"
  have "sorted (map (\<lambda>k. ?xs ! k) (argsort ?xs))"
    by (simp add: argsort_def)
  moreover have "map (\<lambda>k. ?xs ! k) (argsort ?xs) = map uminus (map (\<lambda>k. vs ! k) (argsort ?xs))"
    using argsort_set [of ?xs] by (auto simp: map_eq_conv)
  ultimately show ?thesis by simp
qed

lemma sum_product_nth:
  assumes "length xs = m" and "length ys = m"
  shows "np_sum_product xs ys = Inr (\<Sum>k = 0..<m. xs ! k * ys ! k)"
proof -
  have "sum_list (map2 (*) xs ys) = (\<Sum>k = 0..<length (map2 (*) xs ys). map2 (*) xs ys ! k)"
    by (rule sum_list_sum_nth)
  also have "\<dots> = (\<Sum>k = 0..<m. xs ! k * ys ! k)"
    using assms by simp
  finally show ?thesis using assms by (simp add: np_sum_product_def)
qed

lemma vcg_sum_identity:
  fixes c s :: "nat \<Rightarrow> real"
  assumes "i < m"
  shows "(\<Sum>k = 0..<m. c k * (if k < i then s k else s (Suc k)))
           - ((\<Sum>k = 0..<m. c k * s k) - c i * s i)
         = (\<Sum>j = Suc i..<Suc m. (c (j - 1) - (if j < m then c j else 0)) * s j)"
proof -
  let ?low = "\<Sum>k = 0..<i. c k * s k"
  let ?up = "\<Sum>k = i..<m. c k * s (Suc k)"
  let ?rest = "\<Sum>k = Suc i..<m. c k * s k"
  have A: "(\<Sum>k = 0..<m. c k * (if k < i then s k else s (Suc k))) = ?low + ?up"
  proof -
    have "(\<Sum>k = 0..<m. c k * (if k < i then s k else s (Suc k)))
        = (\<Sum>k = 0..<i. c k * (if k < i then s k else s (Suc k)))
          + (\<Sum>k = i..<m. c k * (if k < i then s k else s (Suc k)))"
      using assms
        sum.atLeastLessThan_concat [of 0 i m "\<lambda>k. c k * (if k < i then s k else s (Suc k))"]
      by simp
    then show ?thesis by simp
  qed
  have B: "(\<Sum>k = 0..<m. c k * s k) = ?low + (c i * s i + ?rest)"
  proof -
    have "(\<Sum>k = 0..<m. c k * s k) = ?low + (\<Sum>k = i..<m. c k * s k)"
      using assms sum.atLeastLessThan_concat [of 0 i m "\<lambda>k. c k * s k"] by simp
    also have "(\<Sum>k = i..<m. c k * s k) = c i * s i + ?rest"
      using assms by (simp add: sum.atLeast_Suc_lessThan)
    finally show ?thesis .
  qed
  have C: "(\<Sum>j = Suc i..<Suc m. (c (j - 1) - (if j < m then c j else 0)) * s j) = ?up - ?rest"
  proof -
    have "(\<Sum>j = Suc i..<Suc m. (c (j - 1) - (if j < m then c j else 0)) * s j)
        = (\<Sum>j = Suc i..<Suc m. c (j - 1) * s j)
          - (\<Sum>j = Suc i..<Suc m. (if j < m then c j else 0) * s j)"
      by (simp add: left_diff_distrib sum_subtractf)
    moreover have "(\<Sum>j = Suc i..<Suc m. c (j - 1) * s j) = ?up"
    proof -
      have "(\<Sum>j = Suc i..<Suc m. c (j - 1) * s j)
          = (\<Sum>k = i..<m. c (Suc k - 1) * s (Suc k))"
        by (rule sum.shift_bounds_Suc_ivl)
      then show ?thesis by simp
    qed
    moreover have "(\<Sum>j = Suc i..<Suc m. (if j < m then c j else 0) * s j) = ?rest"
      using assms by simp
    ultimately show ?thesis by simp
  qed
  from A B C show ?thesis by simp
qed


lemma deleted_nth:
  assumes "i < length sv" and "k < length sv - 1"
  shows "(take i sv @ drop (Suc i) sv) ! k = (if k < i then sv ! k else sv ! Suc k)"
proof (cases "k < i")
  case True
  with assms show ?thesis by (simp add: nth_append)
next
  case False
  with assms have "(take i sv @ drop (Suc i) sv) ! k = drop (Suc i) sv ! (k - i)"
    by (simp add: nth_append min_def)
  also from False assms have "\<dots> = sv ! Suc k" by simp
  finally show ?thesis using False by simp
qed

lemma vcg_payment_loop_closed:
  assumes cs: "length cs = m" and nz: "\<forall>k < m. cs ! k \<noteq> 0"
    and desc: "sorted (map uminus sv)" and more: "m < length sv"
    and slots: "\<forall>i\<in>set slots. i < m"
  shows "vcg_payment_loop (int m) cs (take m sv) sv slots =
           Inr (map (\<lambda>i. ((\<Sum>k = 0..<m. cs ! k * (if k < i then sv ! k else sv ! Suc k))
                            - ((\<Sum>k = 0..<m. cs ! k * sv ! k) - cs ! i * sv ! i)) / cs ! i)
                  slots)"
  using slots
proof (induction slots)
  case Nil
  then show ?case by simp
next
  case (Cons i slots)
  then have i: "i < m" by simp
  let ?others = "take i sv @ drop (Suc i) sv"
  from i more have del: "np_delete sv i = Inr ?others" by (simp add: np_delete_def)
  from descending_rev_sort [OF descending_delete [OF desc, of i]]
  have srt: "rev (sort ?others) = ?others" .
  have sl: "py_slice_to xs (int m) = take m xs" for xs :: "real list"
    by (simp add: py_slice_to_def)
  from more have l1: "length (take m sv) = m" by simp
  from i more have "length ?others = length sv - 1" by simp
  with more have l2: "length (take m ?others) = m" by simp
  have with_i: "np_sum_product cs (take m sv) = Inr (\<Sum>k = 0..<m. cs ! k * sv ! k)"
    using sum_product_nth [OF cs l1] by simp
  have "(\<Sum>k = 0..<m. cs ! k * take m ?others ! k)
      = (\<Sum>k = 0..<m. cs ! k * (if k < i then sv ! k else sv ! Suc k))"
  proof (rule sum.cong)
    fix k assume "k \<in> {0..<m}"
    then have k: "k < m" by simp
    with more i have "?others ! k = (if k < i then sv ! k else sv ! Suc k)"
      by (intro deleted_nth) simp_all
    moreover from k have "take m ?others ! k = ?others ! k" by (rule nth_take)
    ultimately show "cs ! k * take m ?others ! k
        = cs ! k * (if k < i then sv ! k else sv ! Suc k)" by (simp only:)
  qed simp
  with sum_product_nth [OF cs l2]
  have without_i: "np_sum_product cs (take m ?others)
      = Inr (\<Sum>k = 0..<m. cs ! k * (if k < i then sv ! k else sv ! Suc k))" by simp
  from i cs have c: "py_getitem cs (int i) = Inr (cs ! i)" by (simp add: py_getitem_nat)
  from i more have v: "py_getitem (take m sv) (int i) = Inr (sv ! i)"
    by (simp add: py_getitem_nat)
  from nz i have "cs ! i \<noteq> 0" by simp
  then have dv: "np_truediv x (cs ! i) = Inr (x / cs ! i)" for x
    by (simp add: np_truediv_def)
  from Cons.prems have "\<forall>i\<in>set slots. i < m" by simp
  from Cons.IH [OF this] del srt sl with_i without_i c v dv show ?case
    by (simp add: Let_def)
qed

text \<open>
  Claim C10. With \<open>n_slots \<ge> 1\<close> slots of positive, weakly descending rates \<open>cs\<close>, more
  advertisers than slots and pairwise distinct positive values, both computations return,
  and the price that \<^verbatim>\<open>calculate_vcg_payments\<close> (on the rates followed by 0) gives the
  advertiser of rank \<open>i < n_slots\<close> is the payment that \<^verbatim>\<open>simulate_auctions\<close> computes
  for slot \<open>i\<close>.
\<close>

theorem vcg_closed_form_matches_counterfactual:
  assumes slots: "1 \<le> ns" and cs: "int (length cs) = ns"
    and pos: "list_all (\<lambda>c. 0 < c) cs" and desc: "sorted_wrt (\<lambda>c d. d \<le> c) cs"
    and more: "ns < int (length vs)"
    and dist: "distinct vs" and vpos: "list_all (\<lambda>v. 0 < v) vs"
    and i: "int i < ns"
  shows "\<exists>vcg sim.
           calculate_vcg_payments \<lparr>n_slots = ns, ctrs = cs @ [0], vals = vs\<rparr> = Inr vcg
         \<and> simulate_vcg_payments ns cs vs = Inr sim
         \<and> i < length sim
         \<and> vcg ! (argsort (map uminus vs) ! i) = sim ! i"
proof -
  let ?a = "\<lparr>n_slots = ns, ctrs = cs @ [0], vals = vs\<rparr>"
  let ?r = "argsort (map uminus vs)"
  let ?sv = "map (\<lambda>k. vs ! k) ?r"
  define m where "m = length cs"
  from cs have ns: "ns = int m" by (simp add: m_def)
  from i ns have im: "i < m" by simp
  from more ns have mv: "m < length vs" by simp
  have lr: "length ?r = length vs" by (simp add: argsort_length)
  have len: "int (length (ctrs ?a)) = n_slots ?a + 1" using cs by simp
  from calculate_vcg_payments_fold [OF len] obtain vcg where
    vcg: "calculate_vcg_payments ?a = Inr vcg" by blast
  from pos im have ci: "0 < cs ! i" by (simp add: list_all_length m_def)
  from im have ctr: "ctrs ?a ! i = cs ! i" by (simp add: nth_append m_def)
  from mv im have iv: "i < length (vals ?a)" by simp
  from vcg_price_at_rank(1) [OF len iv vcg] i ci ctr
  have closed: "vcg ! (?r ! i) = rank_payment ?a ?r i / cs ! i" by simp
  have nz: "\<forall>k < m. cs ! k \<noteq> 0"
    using pos by (auto simp: list_all_length m_def)
  have "\<forall>i\<in>set [0..<m]. i < m" by simp
  moreover have sd: "sorted (map uminus ?sv)" by (rule sorted_vals_descending)
  moreover have msv: "m < length ?sv" using mv lr by simp
  moreover have cm: "length cs = m" by (simp add: m_def)
  ultimately
  have loop: "vcg_payment_loop (int m) cs (take m ?sv) ?sv [0..<m] =
           Inr (map (\<lambda>i. ((\<Sum>k = 0..<m. cs ! k * (if k < i then ?sv ! k else ?sv ! Suc k))
                            - ((\<Sum>k = 0..<m. cs ! k * ?sv ! k) - cs ! i * ?sv ! i)) / cs ! i)
                  [0..<m])"
    using nz by (intro vcg_payment_loop_closed)
  define sim where "sim = map (\<lambda>i. ((\<Sum>k = 0..<m. cs ! k * (if k < i then ?sv ! k else ?sv ! Suc k))
                            - ((\<Sum>k = 0..<m. cs ! k * ?sv ! k) - cs ! i * ?sv ! i)) / cs ! i)
                  [0..<m]"
  have sim: "simulate_vcg_payments ns cs vs = Inr sim"
    using loop by (simp add: simulate_vcg_payments_def Let_def ns py_slice_to_def sim_def m_def)
  have ls: "i < length sim" using im by (simp add: sim_def)
  have "rank_payment ?a ?r i =
      (\<Sum>j = Suc i..<Suc m. (cs ! (j - 1) - (if j < m then cs ! j else 0)) * ?sv ! j)"
  proof -
    from mv lr ns have up: "nat (min (n_slots ?a + 1) (int (length ?r))) = Suc m" by simp
    have "(\<Sum>j = Suc i..<Suc m. (ctrs ?a ! (j - 1) - ctrs ?a ! j) * vals ?a ! (?r ! j))
        = (\<Sum>j = Suc i..<Suc m. (cs ! (j - 1) - (if j < m then cs ! j else 0)) * ?sv ! j)"
    proof (rule sum.cong)
      fix j assume "j \<in> {Suc i..<Suc m}"
      then have j: "Suc i \<le> j" "j \<le> m" by simp_all
      then have "j - 1 < length cs" unfolding m_def by arith
      then have a: "(cs @ [0]) ! (j - 1) = cs ! (j - 1)"
        by (simp only: nth_append if_True)
      from j have b: "(cs @ [0]) ! j = (if j < m then cs ! j else 0)"
        by (auto simp: nth_append m_def)
      from j mv lr have "?sv ! j = vs ! (?r ! j)" by simp
      with a b show "(ctrs ?a ! (j - 1) - ctrs ?a ! j) * vals ?a ! (?r ! j)
          = (cs ! (j - 1) - (if j < m then cs ! j else 0)) * ?sv ! j" by simp
    qed simp
    with up show ?thesis by (simp add: rank_payment_def)
  qed
  also have "\<dots> = (\<Sum>k = 0..<m. cs ! k * (if k < i then ?sv ! k else ?sv ! Suc k))
                            - ((\<Sum>k = 0..<m. cs ! k * ?sv ! k) - cs ! i * ?sv ! i)"
    using vcg_sum_identity [OF im, of "\<lambda>k. cs ! k" "\<lambda>k. ?sv ! k"] by simp
  finally have "rank_payment ?a ?r i / cs ! i = sim ! i"
    using im by (simp add: sim_def)
  with closed vcg sim ls show ?thesis by auto
qed

theorem vcg_closed_form_matches_counterfactual_witness:
  "calculate_vcg_payments \<lparr>n_slots = 2, ctrs = [1, 6/10] @ [0], vals = [6, 2, 10, 7]\<rparr>
     = Inr [0, 0, 32/5, 6]
   \<and> simulate_vcg_payments 2 [1, 6/10] [6, 2, 10, 7] = Inr [32/5, 6]
   \<and> argsort (map uminus [6, 2, 10, 7]) = [2, 3, 0, 1]
   \<and> (\<exists>vcg sim.
         calculate_vcg_payments \<lparr>n_slots = 2, ctrs = [1, 6/10] @ [0], vals = [6, 2, 10, 7]\<rparr>
           = Inr vcg
       \<and> simulate_vcg_payments 2 [1, 6/10] [6, 2, 10, 7] = Inr sim
       \<and> 1 < length sim
       \<and> vcg ! (argsort (map uminus [6, 2, 10, 7]) ! 1) = sim ! 1)"
proof -
  have c: "calculate_vcg_payments \<lparr>n_slots = 2, ctrs = [1, 6/10] @ [0], vals = [6, 2, 10, 7]\<rparr>
     = Inr [0, 0, 32/5, 6]"
    by code_simp
  have s: "simulate_vcg_payments 2 [1, 6/10] [6, 2, 10, 7] = Inr [32/5, 6]"
    by code_simp
  have r: "argsort (map uminus [6, 2, 10, 7]) = [2, 3, 0, 1]"
    by code_simp
  have "\<exists>vcg sim.
         calculate_vcg_payments \<lparr>n_slots = 2, ctrs = [1, 6/10] @ [0], vals = [6, 2, 10, 7]\<rparr>
           = Inr vcg
       \<and> simulate_vcg_payments 2 [1, 6/10] [6, 2, 10, 7] = Inr sim
       \<and> 1 < length sim
       \<and> vcg ! (argsort (map uminus [6, 2, 10, 7]) ! 1) = sim ! 1"
    by (rule vcg_closed_form_matches_counterfactual) simp_all
  with c s r show ?thesis by (intro conjI)
qed

end
